theory Spec2Isabelle
  imports Complex_Main "HOL-Library.Word"
begin

unbundle bit_operations_syntax

section \<open>Stepper engine (core/src/Stepper.c, core/include/Stepper.h)\<close>

text \<open>
  Objects live in a store addressed by handles. A C pointer is an \<open>addr option\<close>
  (\<open>None\<close> is \<open>NULL\<close>). Dereferencing \<open>NULL\<close>, a handle that is not in the
  store, or an array slot past the end of the array is undefined behaviour in C; the
  model makes it a \<open>fault\<close> value, so every function returns \<open>fault + result\<close>.
\<close>

type_synonym addr = nat

datatype fault = NullPointer | InvalidPointer | OutOfBounds

datatype direction_abs_t = DIRECTION_COUNTERCLOCKWISE | DIRECTION_CLOCKWISE

datatype direction_rel_t = DIRECTION_NEGATIVE | DIRECTION_POSITIVE

record Stepper =
  dir_pin :: addr
  step_pin :: addr
  current_req :: "addr option"
  shared_mutex :: "addr option"
  pos_direction :: direction_abs_t
  curr_direction :: direction_abs_t
  half_period :: "32 word"
  microsteps_per_rotation :: "32 word"
  steps :: "32 word"
  stop :: "32 word"
  req_available :: "32 word"

type_synonym heap = "addr \<rightharpoonup> Stepper"

definition MOTOR_LIST_SIZE_MAX :: nat where
  "MOTOR_LIST_SIZE_MAX = 8"

definition MAX_PPS :: "32 word" where
  "MAX_PPS = 4160"

definition stepper_is_busy :: "Stepper \<Rightarrow> bool" where
  "stepper_is_busy motor = (shared_mutex motor \<noteq> None)"

text \<open>\<open>motors[i]->...\<close>: read slot \<open>i\<close> of an array of Stepper pointers and follow it.\<close>

definition deref :: "heap \<Rightarrow> addr option list \<Rightarrow> nat \<Rightarrow> fault + (addr \<times> Stepper)" where
  "deref h ms i =
     (if length ms \<le> i then Inl OutOfBounds
      else case ms ! i of
             None \<Rightarrow> Inl NullPointer
           | Some a \<Rightarrow> (case h a of None \<Rightarrow> Inl InvalidPointer | Some m \<Rightarrow> Inr (a, m)))"

text \<open>
  The loop \<open>for(i = 0; i < count; i++)\<close> of \<open>stepper_set_speed_multiple\<close>, entered
  at index \<open>i\<close>. \<open>stepper_is_busy(motors[i])\<close> dereferences the slot before the
  \<open>NULL\<close> test of the source is reached, so that test never decides anything.
\<close>

function set_speed_loop :: "addr option list \<Rightarrow> 32 word \<Rightarrow> nat \<Rightarrow> nat \<Rightarrow> heap \<Rightarrow> fault + (int \<times> heap)" where
  "set_speed_loop ms pps i n h =
     (if i < n then
        (case deref h ms i of
           Inl f \<Rightarrow> Inl f
         | Inr (a, m) \<Rightarrow>
             if stepper_is_busy m then Inr (- 1, h)
             else set_speed_loop ms pps (Suc i) n (h(a \<mapsto> m\<lparr>half_period := 500000 div pps\<rparr>)))
      else Inr (0, h))"
  by pat_completeness auto
termination
  by (relation "measure (\<lambda>(ms, pps, i, n, h). n - i)") auto

declare set_speed_loop.simps [simp del]

definition stepper_set_speed_multiple ::
  "addr option list option \<Rightarrow> 32 word \<Rightarrow> 32 word \<Rightarrow> heap \<Rightarrow> fault + (int \<times> heap)" where
  "stepper_set_speed_multiple motors pps count h =
     (case motors of
        None \<Rightarrow> Inr (- 1, h)
      | Some ms \<Rightarrow>
          if pps = 0 then Inr (- 1, h)
          else if count = 0 \<or> count > of_nat MOTOR_LIST_SIZE_MAX then Inr (- 1, h)
          else set_speed_loop ms (if pps > MAX_PPS then MAX_PPS else pps) 0 (unat count) h)"

definition stepper_set_speed :: "addr option \<Rightarrow> 32 word \<Rightarrow> heap \<Rightarrow> fault + (int \<times> heap)" where
  "stepper_set_speed motor pps h = stepper_set_speed_multiple (Some [motor]) pps 1 h"

subsection \<open>Requests\<close>

text \<open>
  \<open>struct stepper_req\<close>. The bulk of step lines is kept as the list of its lines. What the
  surroundings decide (the allocator, the GPIO driver, the mutex library) is a parameter
  of the model: the record \<open>env\<close>.
\<close>

record stepper_req =
  req_motor_list :: "addr option list"
  req_motor_waiting :: "addr option"
  req_pin_bulk :: "addr list"
  req_count :: "32 word"
  req_steps :: "32 word"

datatype event =
    DirWrite addr direction_abs_t
  | BulkHigh
  | BulkLow
  | Sleep "32 word"
  | ReadStop addr
  | SignalReq addr

record sys =
  steppers :: heap
  requests :: "addr \<rightharpoonup> stepper_req"
  trace :: "event list"

record env =
  new_request :: "addr option"
  bulk_granted :: bool
  new_mutex :: "addr option"
  mutex_init_ok :: bool
  set_value_ok :: "addr \<Rightarrow> bool"

text \<open>
  First loop of \<open>stepper_create_new_request\<close>: copy the handles into the request's
  \<open>motor_list\<close>, an array of \<open>MOTOR_LIST_SIZE_MAX\<close> slots. The result \<open>None\<close> is the
  jump to \<open>failure\<close> on a \<open>NULL\<close> handle.
\<close>

function copy_motors :: "addr option list \<Rightarrow> nat \<Rightarrow> nat \<Rightarrow> addr option list \<Rightarrow> fault + addr option list option" where
  "copy_motors ms i n ml =
     (if i < n then
        (if length ms \<le> i then Inl OutOfBounds
         else if ms ! i = None then Inr None
         else if length ml \<le> i then Inl OutOfBounds
         else copy_motors ms (Suc i) n (ml[i := ms ! i]))
      else Inr (Some ml))"
  by pat_completeness auto
termination
  by (relation "measure (\<lambda>(ms, i, n, ml). n - i)") auto

declare copy_motors.simps [simp del]

text \<open>Second loop: \<open>gpiod_line_bulk_add(bulk, motors[i]->step_pin)\<close>.\<close>

function bulk_add :: "heap \<Rightarrow> addr option list \<Rightarrow> nat \<Rightarrow> nat \<Rightarrow> addr list \<Rightarrow> fault + addr list" where
  "bulk_add h ms i n bulk =
     (if i < n then
        (case deref h ms i of
           Inl f \<Rightarrow> Inl f
         | Inr (a, m) \<Rightarrow> bulk_add h ms (Suc i) n (bulk @ [step_pin m]))
      else Inr bulk)"
  by pat_completeness auto
termination
  by (relation "measure (\<lambda>(h, ms, i, n, bulk). n - i)") auto

declare bulk_add.simps [simp del]

text \<open>Third loop: point every motor of the list to the request and to its mutex.\<close>

function link_motors :: "addr option list \<Rightarrow> nat \<Rightarrow> nat \<Rightarrow> addr \<Rightarrow> addr \<Rightarrow> heap \<Rightarrow> fault + heap" where
  "link_motors ms i n r mx h =
     (if i < n then
        (case deref h ms i of
           Inl f \<Rightarrow> Inl f
         | Inr (a, m) \<Rightarrow>
             link_motors ms (Suc i) n r mx (h(a \<mapsto> m\<lparr>current_req := Some r, shared_mutex := Some mx\<rparr>)))
      else Inr h)"
  by pat_completeness auto
termination
  by (relation "measure (\<lambda>(ms, i, n, r, mx, h). n - i)") auto

declare link_motors.simps [simp del]

text \<open>
  \<open>stepper_create_new_request\<close>: the new request's handle, or \<open>None\<close> (\<open>NULL\<close>) when the
  allocation, a handle, the bulk request or the mutex fails; the \<open>failure\<close> label releases
  everything, so the state is then the one at entry.
\<close>

definition stepper_create_new_request ::
  "env \<Rightarrow> addr option list \<Rightarrow> 32 word \<Rightarrow> 32 word \<Rightarrow> sys \<Rightarrow> fault + (addr option \<times> sys)" where
  "stepper_create_new_request e ms count n_steps s =
     (case new_request e of
        None \<Rightarrow> Inr (None, s)
      | Some r \<Rightarrow>
          (case copy_motors ms 0 (unat count) (replicate MOTOR_LIST_SIZE_MAX None) of
             Inl f \<Rightarrow> Inl f
           | Inr None \<Rightarrow> Inr (None, s)
           | Inr (Some ml) \<Rightarrow>
               (case bulk_add (steppers s) ms 0 (unat count) [] of
                  Inl f \<Rightarrow> Inl f
                | Inr bulk \<Rightarrow>
                    if \<not> bulk_granted e then Inr (None, s)
                    else (case new_mutex e of
                            None \<Rightarrow> Inr (None, s)
                          | Some mx \<Rightarrow>
                              if \<not> mutex_init_ok e then Inr (None, s)
                              else (case link_motors ms 0 (unat count) r mx (steppers s) of
                                      Inl f \<Rightarrow> Inl f
                                    | Inr h' \<Rightarrow>
                                        Inr (Some r,
                                             s\<lparr>steppers := h',
                                               requests := (requests s)(r \<mapsto>
                                                 \<lparr>req_motor_list = ml, req_motor_waiting = None,
                                                  req_pin_bulk = bulk, req_count = count,
                                                  req_steps = n_steps\<rparr>)\<rparr>))))))"

text \<open>
  \<open>stepper_step_multiple\<close>. Its \<open>count\<close> is a C \<open>int\<close>: the test
  \<open>count > MOTOR_LIST_SIZE_MAX\<close> is a signed comparison, and the value is converted to
  \<open>unsigned int\<close> when it is passed on.
\<close>

definition stepper_step_multiple ::
  "env \<Rightarrow> addr option list option \<Rightarrow> 32 word \<Rightarrow> 32 word \<Rightarrow> sys \<Rightarrow> fault + (int \<times> sys)" where
  "stepper_step_multiple e motors n_steps count s =
     (case motors of
        None \<Rightarrow> Inr (- 1, s)
      | Some ms \<Rightarrow>
          if n_steps = 0 then Inr (- 1, s)
          else if count = 0 \<or> sint count > int MOTOR_LIST_SIZE_MAX then Inr (- 1, s)
          else (case deref (steppers s) ms 0 of
                  Inl f \<Rightarrow> Inl f
                | Inr (a0, m0) \<Rightarrow>
                    if stepper_is_busy m0 then Inr (- 1, s)
                    else (case stepper_create_new_request e ms count n_steps s of
                            Inl f \<Rightarrow> Inl f
                          | Inr (None, s') \<Rightarrow> Inr (- 1, s')
                          | Inr (Some r, s') \<Rightarrow>
                              (case steppers s' a0 of
                                 None \<Rightarrow> Inl InvalidPointer
                               | Some m \<Rightarrow>
                                   Inr (0, s'\<lparr>steppers := (steppers s')(a0 \<mapsto> m\<lparr>req_available := 1\<rparr>),
                                              trace := trace s' @ [SignalReq a0]\<rparr>)))))"

definition stepper_step :: "env \<Rightarrow> addr option \<Rightarrow> 32 word \<Rightarrow> sys \<Rightarrow> fault + (int \<times> sys)" where
  "stepper_step e motor n_steps s = stepper_step_multiple e (Some [motor]) n_steps 1 s"

subsection \<open>Direction\<close>




definition stepper_get_direction_rel :: "Stepper \<Rightarrow> direction_rel_t" where
  "stepper_get_direction_rel m =
     (if curr_direction m = pos_direction m then DIRECTION_POSITIVE else DIRECTION_NEGATIVE)"

subsection \<open>The pulser\<close>

text \<open>
  Another thread may call \<open>stepper_stop\<close> while the pulser sleeps. Its first statement,
  \<open>motor->stop = stepper_is_busy(motor)\<close>, is the only write to a stop flag that can
  happen during a motion; the schedule \<open>sched\<close> gives, for each pulse, the motors it is
  executed on while that pulse is emitted.
\<close>

definition stop_flag :: "addr \<Rightarrow> heap \<Rightarrow> heap" where
  "stop_flag a h =
     (case h a of None \<Rightarrow> h | Some m \<Rightarrow> h(a \<mapsto> m\<lparr>stop := (if stepper_is_busy m then 1 else 0)\<rparr>))"

text \<open>
  The \<open>for\<close> loop of the pulser: every motor of the request's list counts one step, up in
  its positive direction and down otherwise, and its stop flag is folded into \<open>stop\<close>.
\<close>

function count_steps :: "addr option list \<Rightarrow> nat \<Rightarrow> nat \<Rightarrow> 32 word \<Rightarrow> heap \<Rightarrow> event list \<Rightarrow> fault + (32 word \<times> heap \<times> event list)" where
  "count_steps ml i n stp h tr =
     (if i < n then
        (case deref h ml i of
           Inl f \<Rightarrow> Inl f
         | Inr (a, node) \<Rightarrow>
             count_steps ml (Suc i) n (stp OR stop node)
               (h(a \<mapsto> node\<lparr>steps := (if curr_direction node = pos_direction node
                                        then steps node + 1 else steps node - 1)\<rparr>))
               (tr @ [ReadStop a]))
      else Inr (stp, h, tr))"
  by pat_completeness auto
termination
  by (relation "measure (\<lambda>(ml, i, n, stp, h, tr). n - i)") auto

declare count_steps.simps [simp del]

text \<open>
  The \<open>do ... while(--req_steps && !stop)\<close> loop, entered for pulse number \<open>p\<close> with
  \<open>req\<close> the request's \<open>req_steps\<close>. The decrement is the unsigned one of C: from 0 it
  wraps to \<open>2^32 - 1\<close>. The result carries the final \<open>req_steps\<close>.
\<close>

function pulse_loop ::
  "(nat \<Rightarrow> addr list) \<Rightarrow> addr option list \<Rightarrow> nat \<Rightarrow> 32 word \<Rightarrow> nat \<Rightarrow> 32 word \<Rightarrow> 32 word \<Rightarrow> heap \<Rightarrow> event list
   \<Rightarrow> fault + (32 word \<times> heap \<times> event list)" where
  "pulse_loop sched ml num hp p req stp h tr =
     (case count_steps ml 0 num stp (fold stop_flag (sched p) h)
             (tr @ [BulkHigh, Sleep hp, BulkLow, Sleep hp]) of
        Inl f \<Rightarrow> Inl f
      | Inr (stp', h', tr') \<Rightarrow>
          if req - 1 \<noteq> 0 \<and> stp' = 0
          then pulse_loop sched ml num hp (Suc p) (req - 1) stp' h' tr'
          else Inr (req - 1, h', tr'))"
  by pat_completeness auto
termination
proof (relation "measure (\<lambda>(sched, ml, num, hp, p, req, stp, h, tr). unat (req - 1))")
  show "wf (measure (\<lambda>(sched, ml, num, hp, p, req, stp, h, tr). unat (req - 1)))"
    by simp
next
  fix sched :: "nat \<Rightarrow> addr list" and ml :: "addr option list" and num :: nat
    and hp req stp :: "32 word" and p :: nat and h :: heap and tr :: "event list"
    and za :: "32 word" and zb :: heap and zc :: "event list"
  assume cont: "req - 1 \<noteq> 0 \<and> za = 0"
  have dec: "unat (w - 1) < unat w" if "w \<noteq> 0" for w :: "32 word"
    using that by (simp add: unat_minus_one unat_gt_0)
  from cont dec [of "req - 1"] show "((sched, ml, num, hp, Suc p, req - 1, za, zb, zc), (sched, ml, num, hp, p, req, stp, h, tr))
             \<in> measure (\<lambda>(sched, ml, num, hp, p, req, stp, h, tr). unat (req - 1))"
    by simp
qed

declare pulse_loop.simps [simp del]

text \<open>
  One motion of \<open>motor_pulser\<close>, from the point where the worker of motor \<open>a\<close> has seen
  \<open>req_available\<close>: it clears the flag, takes the half period and the number of motors
  from the motor's current request, and runs the pulse loop.
\<close>

definition motor_pulser_motion :: "(nat \<Rightarrow> addr list) \<Rightarrow> addr \<Rightarrow> sys \<Rightarrow> fault + sys" where
  "motor_pulser_motion sched a s =
     (case steppers s a of
        None \<Rightarrow> Inl InvalidPointer
      | Some motor \<Rightarrow>
          (case current_req motor of
             None \<Rightarrow> Inl NullPointer
           | Some r \<Rightarrow>
               (case requests s r of
                  None \<Rightarrow> Inl InvalidPointer
                | Some rq \<Rightarrow>
                    (case pulse_loop sched (req_motor_list rq) (unat (req_count rq)) (half_period motor) 0
                            (req_steps rq) 0 ((steppers s)(a \<mapsto> motor\<lparr>req_available := 0\<rparr>)) (trace s) of
                       Inl f \<Rightarrow> Inl f
                     | Inr (left, h', tr') \<Rightarrow>
                         Inr (s\<lparr>steppers := h',
                                requests := (requests s)(r \<mapsto> rq\<lparr>req_steps := left\<rparr>),
                                trace := tr'\<rparr>)))))"

subsection \<open>Sample states\<close>

text \<open>
  Motor A of the repository's tests (step line 23, direction line 24, half step, 200 steps
  per rotation, clockwise) at 200 pulses per second, and a store with two such motors.
\<close>

definition motor_A :: Stepper where
  "motor_A = \<lparr>dir_pin = 24, step_pin = 23, current_req = None, shared_mutex = None,
     pos_direction = DIRECTION_CLOCKWISE, curr_direction = DIRECTION_CLOCKWISE,
     half_period = 2500, microsteps_per_rotation = 400, steps = 0, stop = 0, req_available = 0\<rparr>"

definition motor_B :: Stepper where
  "motor_B = \<lparr>dir_pin = 18, step_pin = 19, current_req = None, shared_mutex = None,
     pos_direction = DIRECTION_COUNTERCLOCKWISE, curr_direction = DIRECTION_COUNTERCLOCKWISE,
     half_period = 2500, microsteps_per_rotation = 400, steps = 0, stop = 0, req_available = 0\<rparr>"

definition two_idle :: heap where
  "two_idle = [1 \<mapsto> motor_A, 2 \<mapsto> motor_B]"

definition second_busy :: heap where
  "second_busy = [1 \<mapsto> motor_A, 2 \<mapsto> motor_B\<lparr>current_req := Some 10, shared_mutex := Some 11\<rparr>]"

text \<open>An environment that grants every allocation and every GPIO request.\<close>

definition all_granted :: env where
  "all_granted = \<lparr>new_request = Some 10, bulk_granted = True, new_mutex = Some 11,
     mutex_init_ok = True, set_value_ok = (\<lambda>pin. True)\<rparr>"

definition first_busy :: heap where
  "first_busy = [1 \<mapsto> motor_A\<lparr>current_req := Some 10, shared_mutex := Some 11\<rparr>, 2 \<mapsto> motor_B]"

text \<open>The change of the accumulator per pulse, and the pulses recorded in a trace.\<close>

definition step_delta :: "Stepper \<Rightarrow> 32 word" where
  "step_delta m = (if curr_direction m = pos_direction m then 1 else - 1)"

definition pulses :: "event list \<Rightarrow> nat" where
  "pulses tr = length (filter (\<lambda>ev. ev = BulkHigh) tr)"

text \<open>Two motors at rest, and the state after a request of three steps for both was accepted;
  the same with a stop flag of the second motor left set.\<close>

definition at_rest :: sys where
  "at_rest = \<lparr>steppers = two_idle, requests = Map.empty, trace = []\<rparr>"

definition moving :: sys where
  "moving = \<lparr>steppers = [1 \<mapsto> motor_A\<lparr>current_req := Some 10, shared_mutex := Some 11, req_available := 1\<rparr>,
                         2 \<mapsto> motor_B\<lparr>current_req := Some 10, shared_mutex := Some 11\<rparr>],
            requests = [10 \<mapsto> \<lparr>req_motor_list = [Some 1, Some 2, None, None, None, None, None, None],
                                 req_motor_waiting = None, req_pin_bulk = [23, 19], req_count = 2,
                                 req_steps = 3\<rparr>],
            trace = [SignalReq 1]\<rparr>"

definition stale :: sys where
  "stale = \<lparr>steppers = [1 \<mapsto> motor_A, 2 \<mapsto> motor_B\<lparr>stop := 1\<rparr>], requests = Map.empty, trace = []\<rparr>"

definition moving_stale :: sys where
  "moving_stale =
     \<lparr>steppers = [1 \<mapsto> motor_A\<lparr>current_req := Some 10, shared_mutex := Some 11, req_available := 1\<rparr>,
                  2 \<mapsto> motor_B\<lparr>current_req := Some 10, shared_mutex := Some 11, stop := 1\<rparr>],
      requests = [10 \<mapsto> \<lparr>req_motor_list = [Some 1, Some 2, None, None, None, None, None, None],
                           req_motor_waiting = None, req_pin_bulk = [23, 19], req_count = 2,
                           req_steps = 3\<rparr>],
      trace = [SignalReq 1]\<rparr>"

section \<open>Axis layer (core/src/Axis.c, core/include/Axis.h)\<close>

text \<open>
  A finite \<open>double\<close> is a rational number. The product and the quotient of two of them
  are the exact results rounded to the nearest binary64 number, ties to the even
  significand (the default rounding of IEEE 754): 53 significant bits, the exponent of
  the last bit no less than -1074. A result of magnitude \<open>2 ^ 1024\<close> or more after rounding is
  an infinity, the value \<open>None\<close>; so is a quotient by zero (or a NaN). Infinite and NaN
  arguments are outside the model.
\<close>

definition pow2 :: "int \<Rightarrow> rat" where
  "pow2 e = (if 0 \<le> e then 2 ^ nat e else 1 / 2 ^ nat (- e))"

text \<open>The number of binary digits of a natural number.\<close>

fun bit_length :: "nat \<Rightarrow> nat" where
  "bit_length n = (if n = 0 then 0 else Suc (bit_length (n div 2)))"

declare bit_length.simps [simp del]

text \<open>For \<open>x > 0\<close>, the exponent \<open>k\<close> with \<open>2 ^ k \<le> x < 2 ^ (k + 1)\<close>.\<close>

definition ilog2 :: "rat \<Rightarrow> int" where
  "ilog2 x = (if 1 \<le> x then int (bit_length (nat \<lfloor>x\<rfloor>)) - 1
              else - int (bit_length (nat (\<lceil>1 / x\<rceil> - 1))))"

text \<open>Rounding to the nearest integer, a tie to the even one.\<close>

definition round_even :: "rat \<Rightarrow> int" where
  "round_even x =
     (if x - of_int \<lfloor>x\<rfloor> < 1 / 2 then \<lfloor>x\<rfloor>
      else if 1 / 2 < x - of_int \<lfloor>x\<rfloor> then \<lfloor>x\<rfloor> + 1
      else if even \<lfloor>x\<rfloor> then \<lfloor>x\<rfloor> else \<lfloor>x\<rfloor> + 1)"

definition round64 :: "rat \<Rightarrow> rat option" where
  "round64 x =
     (if x = 0 then Some 0
      else (let e = max (ilog2 \<bar>x\<bar> - 52) (- 1074);
                r = of_int (round_even (\<bar>x\<bar> / pow2 e)) * pow2 e
            in if r < 2 ^ 1024 then Some (sgn x * r) else None))"

definition fmul :: "rat \<Rightarrow> rat \<Rightarrow> rat option" where
  "fmul x y = round64 (x * y)"

definition fdiv :: "rat \<Rightarrow> rat \<Rightarrow> rat option" where
  "fdiv x y = (if y = 0 then None else round64 (x / y))"

text \<open>
  A conversion of a \<open>double\<close> to \<open>unsigned int\<close> drops the fractional part; outside the
  range of \<open>unsigned int\<close>, and for an infinity or a NaN, it is undefined in C (the fault
  \<open>Unrepresentable\<close>).
\<close>

record Axis =
  axis_motors :: "addr option list"
  num_motors :: "32 word"
  reset_dir :: "32 word"
  mm_per_rotation :: rat
  position :: rat
  speed :: rat

datatype conv_fault = Unrepresentable | Pointer fault

definition to_unsigned :: "rat \<Rightarrow> conv_fault + 32 word" where
  "to_unsigned x =
     (let t = (if 0 \<le> x then \<lfloor>x\<rfloor> else \<lceil>x\<rceil>)
      in if 0 \<le> t \<and> t < 2 ^ 32 then Inr (word_of_int t) else Inl Unrepresentable)"

text \<open>
  \<open>mm_to_steps\<close>: \<open>(unsigned int)(mm * (double)microsteps_per_rotation / mm_per_rotation)\<close>. The
  microsteps of the first motor are an \<open>unsigned int\<close>, exact as a \<open>double\<close>; the product is
  rounded, then the quotient.
\<close>

definition mm_to_steps :: "Axis \<Rightarrow> heap \<Rightarrow> rat \<Rightarrow> conv_fault + 32 word" where
  "mm_to_steps axis h mm =
     (case deref h (axis_motors axis) 0 of
        Inl f \<Rightarrow> Inl (Pointer f)
      | Inr (a, m) \<Rightarrow>
          (case fmul mm (of_nat (unat (microsteps_per_rotation m))) of
             None \<Rightarrow> Inl Unrepresentable
           | Some p \<Rightarrow>
               (case fdiv p (mm_per_rotation axis) of
                  None \<Rightarrow> Inl Unrepresentable
                | Some q \<Rightarrow> to_unsigned q)))"

text \<open>
  The conversion as the specification words it: the exact quotient, rounded to the nearest
  integer.
\<close>

definition mm_to_steps_spec :: "Axis \<Rightarrow> Stepper \<Rightarrow> rat \<Rightarrow> int" where
  "mm_to_steps_spec axis first_motor mm =
     round (mm * of_nat (unat (microsteps_per_rotation first_motor)) / mm_per_rotation axis)"





text \<open>
  \<open>axis_set_speed\<close>: the speed in mm/s becomes pulses per second by the same conversion.
\<close>

definition axis_set_speed :: "Axis option \<Rightarrow> rat \<Rightarrow> heap \<Rightarrow> conv_fault + (int \<times> Axis option \<times> heap)" where
  "axis_set_speed axis mm_per_sec h =
     (case axis of
        None \<Rightarrow> Inr (- 1, None, h)
      | Some ax \<Rightarrow>
          if mm_per_sec \<le> 0 then Inr (- 1, Some ax, h)
          else (case mm_to_steps ax h mm_per_sec of
                  Inl f \<Rightarrow> Inl f
                | Inr steps_per_sec \<Rightarrow>
                    (case stepper_set_speed_multiple (Some (axis_motors ax)) steps_per_sec (num_motors ax) h of
                       Inl f \<Rightarrow> Inl (Pointer f)
                     | Inr (rv, h') \<Rightarrow>
                         if rv < 0 then Inr (- 1, Some ax, h')
                         else Inr (0, Some (ax\<lparr>speed := mm_per_sec\<rparr>), h'))))"







text \<open>The x axis of the repository's test: motors A and B, 40 mm per rotation.\<close>

definition x_axis :: Axis where
  "x_axis = \<lparr>axis_motors = [Some 1, Some 2, None, None, None, None, None, None], num_motors = 2,
     reset_dir = 0, mm_per_rotation = 40, position = 0, speed = 0\<rparr>"





section \<open>Configuration parser (control/src/config.c)\<close>

text \<open>
  C strings are lists of characters without the terminating NUL. \<open>strncmp_eq a b n\<close> is
  \<open>strncmp(a, b, n) == 0\<close>: the strings agree on their first \<open>n\<close> characters, or up to
  and including their ends when that comes first.
\<close>

fun strncmp_eq :: "string \<Rightarrow> string \<Rightarrow> nat \<Rightarrow> bool" where
  "strncmp_eq a b 0 = True"
| "strncmp_eq [] [] (Suc n) = True"
| "strncmp_eq [] (y # ys) (Suc n) = False"
| "strncmp_eq (x # xs) [] (Suc n) = False"
| "strncmp_eq (x # xs) (y # ys) (Suc n) = (x = y \<and> strncmp_eq xs ys n)"

text \<open>\<open>snprintf(buf, n, ...)\<close> stores at most \<open>n - 1\<close> characters of the formatted text.\<close>

definition snprintf :: "nat \<Rightarrow> string \<Rightarrow> string" where
  "snprintf n s = take (n - 1) s"

definition strncpy :: "string \<Rightarrow> nat \<Rightarrow> string" where
  "strncpy src n = take n src"

text \<open>What \<open>fputs\<close> prints of a buffer: the characters in front of the first NUL.\<close>

definition c_str :: "string \<Rightarrow> string" where
  "c_str buf = takeWhile (\<lambda>c. c \<noteq> CHR 0x00) buf"

definition islower :: "char \<Rightarrow> bool" where
  "islower c = (97 \<le> (of_char c :: nat) \<and> (of_char c :: nat) \<le> 122)"

definition isupper :: "char \<Rightarrow> bool" where
  "isupper c = (65 \<le> (of_char c :: nat) \<and> (of_char c :: nat) \<le> 90)"

definition isdigit :: "char \<Rightarrow> bool" where
  "isdigit c = (48 \<le> (of_char c :: nat) \<and> (of_char c :: nat) \<le> 57)"

definition isalnum :: "char \<Rightarrow> bool" where
  "isalnum c = (islower c \<or> isupper c \<or> isdigit c)"

definition isblank :: "char \<Rightarrow> bool" where
  "isblank c = (c = CHR '' '' \<or> c = CHR 0x09)"

definition hex_digit :: "nat \<Rightarrow> char" where
  "hex_digit n = ''0123456789abcdef'' ! (n mod 16)"

text \<open>The conversion \<open>%02hhx\<close> of a character.\<close>

definition hex2 :: "char \<Rightarrow> string" where
  "hex2 c = [hex_digit ((of_char c :: nat) div 16), hex_digit (of_char c :: nat)]"

definition PARAM_MAX_LEN :: nat where
  "PARAM_MAX_LEN = 32"

definition ERROR_STR_LEN :: nat where
  "ERROR_STR_LEN = 64"

definition MOTOR_NAME_LEN :: nat where
  "MOTOR_NAME_LEN = 32"

definition AXIS_NAME_LEN :: nat where
  "AXIS_NAME_LEN = 32"

definition MOTOR_CONFIG_NAME :: string where
  "MOTOR_CONFIG_NAME = ''motor.conf''"

definition DIRECTION_INVALID :: "32 word" where
  "DIRECTION_INVALID = 2"

definition INVALID_PIN :: int where
  "INVALID_PIN = - 1"

datatype states =
    READ_LINE | READ_PARAM | READ_IDENTIFIER | SET_IDENTIFIER | CHECK_PARAM | READ_VALUE
  | SET_PARAM | READ_MOTOR_LIST | CLEANUP | FINISHED | ERROR

datatype identifiers = MOTOR | AXIS | INVALID_TYPE

datatype params =
    MOTOR_NAME | STEP_PIN | DIR_PIN | STEPS_ROT | DIRECTION | MICROSTEP
  | AXIS_NAME | MOTOR_LIST | MM_ROT | INVALID_PARAM

record motor_config =
  mc_name :: string
  mc_step_pin :: int
  mc_dir_pin :: int
  mc_microstep :: "32 word"
  mc_steps_rot :: "32 word"
  mc_direction :: "32 word"
  mc_motor :: "addr option"

text \<open>An axis entry refers to its motors by their places in \<open>motor_list\<close>.\<close>

record axis_config =
  ac_name :: string
  ac_mm_rot :: "32 word"
  ac_count :: "32 word"
  ac_motors :: "nat option list"
  ac_axis :: "addr option"

definition motor_params :: "(string \<times> params \<times> nat) list" where
  "motor_params = [(''name'', MOTOR_NAME, 4), (''step_pin'', STEP_PIN, 8), (''dir_pin'', DIR_PIN, 7),
     (''steps_per_rotation'', STEPS_ROT, 18), (''direction'', DIRECTION, 9), (''microstep'', MICROSTEP, 9)]"

definition axis_params :: "(string \<times> params \<times> nat) list" where
  "axis_params = [(''name'', AXIS_NAME, 4), (''motors'', MOTOR_LIST, 6), (''mm_per_rotation'', MM_ROT, 15)]"

text \<open>
  The parser's globals and the locals of \<open>motor_config_state_machine\<close>, with the lines of
  the file still to be read and what has been written to \<open>stderr\<close>.
\<close>

record machine =
  motor_config_state :: states
  err_str :: string
  motor_list :: "motor_config list"
  motor_list_len :: int
  axis_list :: "axis_config list"
  axis_list_len :: int
  sm_stop :: bool
  sm_error :: int
  line_buff :: "string option"
  line_size :: nat
  offset :: nat
  param_buff :: string
  param_size :: nat
  param_id :: params
  value_buff :: string
  value_size :: nat
  last_id :: identifiers
  config_file :: "string list"
  stderr :: "string list"

definition str_to_dir :: "string \<Rightarrow> 32 word" where
  "str_to_dir s =
     (if strncmp_eq s ''counterclockwise'' 16 then 0
      else if strncmp_eq s ''clockwise'' 16 then 1
      else DIRECTION_INVALID)"

text \<open>
  \<open>atoi\<close> of a string of digits: \<open>strtol\<close> saturates at \<open>LONG_MAX\<close> and the result is
  converted to \<open>int\<close>.
\<close>

definition decimal :: "string \<Rightarrow> int" where
  "decimal s = foldl (\<lambda>acc c. 10 * acc + (int (of_char c) - 48)) 0 s"

definition atoi :: "string \<Rightarrow> int" where
  "atoi s = sint (word_of_int (min (decimal s) (2 ^ 63 - 1)) :: 32 word)"

definition str_to_int :: "string \<Rightarrow> int" where
  "str_to_int s = (if list_all isdigit s then atoi s else - 1)"

text \<open>\<open>int_to_gpio_pin\<close> of GPIO.c: the header pin constants are a controller flag and a line.\<close>

definition main_pin :: "int \<Rightarrow> int" where
  "main_pin line = sint ((push_bit 31 1 OR word_of_int line) :: 32 word)"

definition aon_pin :: "int \<Rightarrow> int" where
  "aon_pin line = sint ((push_bit 30 1 OR word_of_int line) :: 32 word)"

definition int_to_gpio_pin :: "int \<Rightarrow> int" where
  "int_to_gpio_pin p =
     (if p = 7 then main_pin 76 else if p = 8 then main_pin 144 else if p = 10 then main_pin 145
      else if p = 11 then main_pin 146 else if p = 12 then main_pin 72 else if p = 13 then main_pin 77
      else if p = 16 then aon_pin 40 else if p = 18 then main_pin 161 else if p = 19 then main_pin 109
      else if p = 21 then main_pin 108 else if p = 23 then main_pin 107 else if p = 24 then main_pin 110
      else if p = 29 then main_pin 78 else if p = 31 then aon_pin 42 else if p = 32 then aon_pin 41
      else if p = 33 then main_pin 69 else if p = 35 then main_pin 75 else if p = 36 then main_pin 147
      else if p = 37 then main_pin 68 else if p = 38 then main_pin 74 else if p = 40 then main_pin 73
      else INVALID_PIN)"

definition is_valid_microstep :: "int \<Rightarrow> bool" where
  "is_valid_microstep microstep = (microstep \<in> {1, 2, 4, 8, 16})"

text \<open>
  \<open>get_motor_node_by_name\<close>: the place of the first entry below \<open>motor_list_len\<close> whose
  name compares equal over \<open>MOTOR_NAME_LEN\<close> characters.
\<close>

function find_motor :: "motor_config list \<Rightarrow> int \<Rightarrow> string \<Rightarrow> nat \<Rightarrow> fault + nat option" where
  "find_motor ml len name i =
     (if int i < len then
        (if length ml \<le> i then Inl OutOfBounds
         else if strncmp_eq name (mc_name (ml ! i)) MOTOR_NAME_LEN then Inr (Some i)
         else find_motor ml len name (Suc i))
      else Inr None)"
  by pat_completeness auto
termination
  by (relation "measure (\<lambda>(ml, len, name, i). nat len - i)") auto

declare find_motor.simps [simp del]

definition get_motor_node_by_name :: "machine \<Rightarrow> string \<Rightarrow> fault + nat option" where
  "get_motor_node_by_name m name = find_motor (motor_list m) (motor_list_len m) name 0"

text \<open>
  The scanning loop shared by the reading states: from \<open>off\<close>, characters accepted by
  \<open>ok\<close> are appended to the buffer while it has room for them and the terminating NUL.
  The buffer of \<open>getline\<close> holds the line, a NUL, and nothing the loops ever reach
  beyond it.
\<close>

datatype scan_stop = Break char | TooLong | LineEnd

definition char_at :: "string \<Rightarrow> nat \<Rightarrow> char" where
  "char_at line i = (if i < length line then line ! i else CHR 0x00)"

function scan_chars :: "(char \<Rightarrow> bool) \<Rightarrow> string \<Rightarrow> nat \<Rightarrow> nat \<Rightarrow> string \<Rightarrow> scan_stop \<times> nat \<times> string" where
  "scan_chars ok line line_len off buf =
     (if off < line_len then
        (if ok (char_at line off) then
           (if length buf < PARAM_MAX_LEN - 1
            then scan_chars ok line line_len (Suc off) (buf @ [char_at line off])
            else (TooLong, off, buf))
         else (Break (char_at line off), off, buf))
      else (LineEnd, off, buf))"
  by pat_completeness auto
termination
  by (relation "measure (\<lambda>(ok, line, line_len, off, buf). line_len - off)") auto

declare scan_chars.simps [simp del]

definition invalid_char_msg :: "char \<Rightarrow> string \<Rightarrow> string" where
  "invalid_char_msg c place =
     snprintf (ERROR_STR_LEN - 1)
       (''Invalid char ('' @ [c] @ '' [0x'' @ hex2 c @ '']) at '' @ place @ '' in '' @ MOTOR_CONFIG_NAME)"

text \<open>
  \<open>state_read_line\<close>: the file is the list of its lines still to be read, each with its
  newline; \<open>getline\<close> hands out the next one, or reports the end of the file. A read
  error of \<open>getline\<close> is not modelled. The size it reports is that of a buffer with room
  for the line and its NUL.
\<close>

definition state_read_line :: "machine \<Rightarrow> machine" where
  "state_read_line m =
     (case config_file m of
        [] \<Rightarrow> m\<lparr>motor_config_state := FINISHED\<rparr>
      | l # ls \<Rightarrow> m\<lparr>line_buff := Some l, line_size := Suc (length l), config_file := ls,
                    motor_config_state := READ_PARAM\<rparr>)"

definition state_read_param :: "machine \<Rightarrow> fault + machine" where
  "state_read_param m =
     (case line_buff m of
        None \<Rightarrow> Inl NullPointer
      | Some line \<Rightarrow>
          (case scan_chars (\<lambda>c. islower c \<or> c = CHR ''_'') line (line_size m) (offset m) [] of
             (why, off, buf) \<Rightarrow>
               Inr ((case why of
                       TooLong \<Rightarrow>
                         m\<lparr>err_str := strncpy (''Param identifier has exceeded max length in '' @ MOTOR_CONFIG_NAME)
                                         (ERROR_STR_LEN - 1),
                           motor_config_state := ERROR\<rparr>
                     | Break c \<Rightarrow>
                         if c = CHR ''='' then m\<lparr>motor_config_state := CHECK_PARAM\<rparr>
                         else if c = CHR ''['' then m\<lparr>motor_config_state := READ_IDENTIFIER\<rparr>
                         else if c = CHR ''#'' \<or> isblank c \<or> c = CHR 0x0A
                         then m\<lparr>motor_config_state := CLEANUP\<rparr>
                         else m\<lparr>err_str := invalid_char_msg c ''param'', motor_config_state := ERROR\<rparr>
                     | LineEnd \<Rightarrow> m)
                    \<lparr>offset := Suc off, param_buff := buf, param_size := length buf\<rparr>)))"

definition state_read_identifier :: "machine \<Rightarrow> fault + machine" where
  "state_read_identifier m =
     (case line_buff m of
        None \<Rightarrow> Inl NullPointer
      | Some line \<Rightarrow>
          (case scan_chars islower line (line_size m) (offset m) [] of
             (why, off, buf) \<Rightarrow>
               Inr ((case why of
                       TooLong \<Rightarrow>
                         m\<lparr>err_str := strncpy (''Type identifier has exceeded max length in '' @ MOTOR_CONFIG_NAME)
                                         (ERROR_STR_LEN - 1),
                           motor_config_state := ERROR\<rparr>
                     | Break c \<Rightarrow>
                         if c = CHR '']'' then m\<lparr>motor_config_state := SET_IDENTIFIER\<rparr>
                         else m\<lparr>err_str := snprintf (ERROR_STR_LEN - 1)
                                   (''Invalid char '' @ [CHR 0x27, c, CHR 0x27] @ '' (0x'' @ hex2 c @
                                    '') at type identifier in '' @ MOTOR_CONFIG_NAME),
                                motor_config_state := ERROR\<rparr>
                     | LineEnd \<Rightarrow> m)
                    \<lparr>offset := Suc off, param_buff := buf, param_size := length buf\<rparr>)))"

definition state_set_identifier :: "machine \<Rightarrow> machine" where
  "state_set_identifier m =
     (if strncmp_eq (param_buff m) ''motor'' 5
      then m\<lparr>last_id := MOTOR, motor_list_len := motor_list_len m + 1, motor_config_state := CLEANUP\<rparr>
      else if strncmp_eq (param_buff m) ''axis'' 4
      then m\<lparr>last_id := AXIS, axis_list_len := axis_list_len m + 1, motor_config_state := CLEANUP\<rparr>
      else m\<lparr>err_str := snprintf (ERROR_STR_LEN - 1)
                 (''Invalid type identifier ('' @ param_buff m @ '') used in '' @ MOTOR_CONFIG_NAME),
              last_id := INVALID_TYPE, motor_config_state := ERROR\<rparr>)"

text \<open>The validation loop of \<open>state_check_param\<close> over a parameter table.\<close>

fun match_param :: "string \<Rightarrow> (string \<times> params \<times> nat) list \<Rightarrow> params option" where
  "match_param p [] = None"
| "match_param p ((name, pid, len) # rest) =
     (if strncmp_eq p name len then Some pid else match_param p rest)"

definition state_check_param :: "machine \<Rightarrow> machine" where
  "state_check_param m =
     (if last_id m \<noteq> MOTOR \<and> last_id m \<noteq> AXIS
      then m\<lparr>err_str := strncpy ''Last type identifier is invalid or not defined'' (ERROR_STR_LEN - 1),
              motor_config_state := ERROR, param_id := INVALID_PARAM\<rparr>
      else if strncmp_eq (param_buff m) ''motors'' 6
      then m\<lparr>motor_config_state := READ_MOTOR_LIST, param_id := MOTOR_LIST\<rparr>
      else (case match_param (param_buff m) (if last_id m = MOTOR then motor_params else axis_params) of
              Some pid \<Rightarrow> m\<lparr>motor_config_state := READ_VALUE, param_id := pid\<rparr>
            | None \<Rightarrow>
                m\<lparr>err_str := snprintf (ERROR_STR_LEN - 1)
                      (param_buff m @ '' is not a valid parameter for type '' @
                       (if last_id m = MOTOR then ''motor'' else ''axis'') @ '', in '' @ MOTOR_CONFIG_NAME),
                   param_id := INVALID_PARAM, motor_config_state := ERROR\<rparr>))"

definition state_read_value :: "machine \<Rightarrow> fault + machine" where
  "state_read_value m =
     (case line_buff m of
        None \<Rightarrow> Inl NullPointer
      | Some line \<Rightarrow>
          (case scan_chars (\<lambda>c. isalnum c \<or> c = CHR ''-'' \<or> c = CHR ''_'') line (line_size m) (offset m) [] of
             (why, off, buf) \<Rightarrow>
               Inr ((case why of
                       TooLong \<Rightarrow>
                         m\<lparr>err_str := strncpy (''Value has exceeded max length in '' @ MOTOR_CONFIG_NAME)
                                         (ERROR_STR_LEN - 1),
                           motor_config_state := ERROR\<rparr>
                     | Break c \<Rightarrow>
                         if isblank c \<or> c = CHR ''#'' \<or> c = CHR 0x0A
                         then m\<lparr>motor_config_state := SET_PARAM\<rparr>
                         else m\<lparr>err_str := invalid_char_msg c ''type identifier'', motor_config_state := ERROR\<rparr>
                     | LineEnd \<Rightarrow> m)
                    \<lparr>offset := Suc off, value_buff := buf, value_size := length buf\<rparr>)))"

text \<open>Writes to the current entries, \<open>motor_list[motor_list_len-1]\<close> and \<open>axis_list[axis_list_len-1]\<close>.\<close>

definition set_motor :: "(motor_config \<Rightarrow> motor_config) \<Rightarrow> machine \<Rightarrow> fault + machine" where
  "set_motor f m =
     (let i = motor_list_len m - 1
      in if 0 \<le> i \<and> i < int (length (motor_list m))
         then Inr (m\<lparr>motor_list := (motor_list m)[nat i := f (motor_list m ! nat i)]\<rparr>)
         else Inl OutOfBounds)"

definition set_axis :: "(axis_config \<Rightarrow> axis_config) \<Rightarrow> machine \<Rightarrow> fault + machine" where
  "set_axis f m =
     (let i = axis_list_len m - 1
      in if 0 \<le> i \<and> i < int (length (axis_list m))
         then Inr (m\<lparr>axis_list := (axis_list m)[nat i := f (axis_list m ! nat i)]\<rparr>)
         else Inl OutOfBounds)"

definition fail_with :: "string \<Rightarrow> machine \<Rightarrow> machine" where
  "fail_with msg m = m\<lparr>err_str := snprintf (ERROR_STR_LEN - 1) msg, motor_config_state := ERROR\<rparr>"

definition state_set_param :: "machine \<Rightarrow> fault + machine" where
  "state_set_param m0 =
     (let m = m0\<lparr>motor_config_state := CLEANUP\<rparr>; v = value_buff m0
      in case param_id m0 of
           MOTOR_NAME \<Rightarrow> set_motor (\<lambda>c. c\<lparr>mc_name := strncpy v (MOTOR_NAME_LEN - 1)\<rparr>) m
         | STEP_PIN \<Rightarrow>
             if str_to_int v > 0
             then (if int_to_gpio_pin (str_to_int v) \<noteq> INVALID_PIN
                   then set_motor (\<lambda>c. c\<lparr>mc_step_pin := int_to_gpio_pin (str_to_int v)\<rparr>) m
                   else Inr (fail_with (v @ '' is not a valid value for step_pin.'') m))
             else Inr (fail_with (v @ '' is not a valid numerical value.'') m)
         | DIR_PIN \<Rightarrow>
             if str_to_int v > 0
             then (if int_to_gpio_pin (str_to_int v) \<noteq> INVALID_PIN
                   then set_motor (\<lambda>c. c\<lparr>mc_dir_pin := int_to_gpio_pin (str_to_int v)\<rparr>) m
                   else Inr (fail_with (v @ '' is not a valid value for dir_pin.'') m))
             else Inr (fail_with (v @ '' is not a valid numerical value.'') m)
         | STEPS_ROT \<Rightarrow>
             if str_to_int v > 0
             then set_motor (\<lambda>c. c\<lparr>mc_steps_rot := word_of_int (str_to_int v)\<rparr>) m
             else Inr (fail_with (v @ '' is not a valid value for steps_per_roation.'') m)
         | DIRECTION \<Rightarrow>
             if str_to_dir v \<noteq> DIRECTION_INVALID
             then set_motor (\<lambda>c. c\<lparr>mc_direction := str_to_dir v\<rparr>) m
             else Inr (fail_with (v @ '' is not a valid direction.'') m)
         | MICROSTEP \<Rightarrow>
             if str_to_int v > 0 \<and> is_valid_microstep (str_to_int v)
             then set_motor (\<lambda>c. c\<lparr>mc_microstep := word_of_int (str_to_int v)\<rparr>) m
             else Inr (fail_with (v @ '' is not a valid value for microstep.'') m)
         | AXIS_NAME \<Rightarrow> set_axis (\<lambda>c. c\<lparr>ac_name := strncpy v (AXIS_NAME_LEN - 1)\<rparr>) m
         | MOTOR_LIST \<Rightarrow> Inr m
         | MM_ROT \<Rightarrow>
             if str_to_int v > 0
             then set_axis (\<lambda>c. c\<lparr>ac_mm_rot := word_of_int (str_to_int v)\<rparr>) m
             else Inr (fail_with (v @ '' is not a valid numerical value.'') m)
         | INVALID_PARAM \<Rightarrow>
             Inr (m\<lparr>err_str := strncpy ''Invalid parameter was set.'' (ERROR_STR_LEN - 1),
                    motor_config_state := ERROR\<rparr>))"

text \<open>
  \<open>axis_node->motors[axis_node->count++] = motor_node\<close> on the current axis entry; the
  array has \<open>MOTOR_LIST_SIZE_MAX\<close> slots.
\<close>

definition append_motor :: "nat \<Rightarrow> machine \<Rightarrow> fault + machine" where
  "append_motor node m =
     (let i = axis_list_len m - 1
      in if 0 \<le> i \<and> i < int (length (axis_list m))
         then (let ax = axis_list m ! nat i
               in if unat (ac_count ax) < length (ac_motors ax)
                  then Inr (m\<lparr>axis_list := (axis_list m)[nat i :=
                              ax\<lparr>ac_motors := (ac_motors ax)[unat (ac_count ax) := Some node],
                                 ac_count := ac_count ax + 1\<rparr>]\<rparr>)
                  else Inl OutOfBounds)
         else Inl OutOfBounds)"

text \<open>
  One pass of the \<open>while(!stop)\<close> loop of \<open>state_read_motor_list\<close>: the parser reads one
  name, the setter looks it up. The result carries the loop's \<open>stop\<close>.
\<close>

definition read_motor_name :: "string \<Rightarrow> machine \<Rightarrow> fault + (bool \<times> machine)" where
  "read_motor_name line m =
     (case scan_chars (\<lambda>c. isalnum c \<or> c = CHR ''-'' \<or> c = CHR ''_'') line (line_size m) (offset m) [] of
        (why, off, buf) \<Rightarrow>
          (let (err, stp, m1) =
                 (case why of
                    TooLong \<Rightarrow>
                      (True, False,
                       m\<lparr>err_str := strncpy (''Value has exceeded max length in '' @ MOTOR_CONFIG_NAME)
                                       (ERROR_STR_LEN - 1)\<rparr>)
                  | Break c \<Rightarrow>
                      if c = CHR '','' then (False, False, m)
                      else if isblank c \<or> c = CHR ''#'' \<or> c = CHR 0x0A
                      then (False, True, m\<lparr>motor_config_state := CLEANUP\<rparr>)
                      else (True, False, m\<lparr>err_str := invalid_char_msg c ''type identifier''\<rparr>)
                  | LineEnd \<Rightarrow> (False, False, m));
               m2 = m1\<lparr>offset := Suc off, value_buff := buf\<rparr>
           in if \<not> err then
                (if buf \<noteq> [] then
                   (case get_motor_node_by_name m2 buf of
                      Inl f \<Rightarrow> Inl f
                    | Inr (Some node) \<Rightarrow>
                        (case append_motor node m2 of Inl f \<Rightarrow> Inl f | Inr m3 \<Rightarrow> Inr (stp, m3))
                    | Inr None \<Rightarrow>
                        Inr (True, fail_with (''Motor '' @ buf @ '' not found before axis definition in '' @
                                              MOTOR_CONFIG_NAME) m2))
                 else Inr (True, fail_with (''Abrupt end in a motor list in '' @ MOTOR_CONFIG_NAME) m2))
              else Inr (True, m2\<lparr>motor_config_state := ERROR\<rparr>)))"

function state_read_motor_list_loop :: "string \<Rightarrow> machine \<Rightarrow> fault + machine" where
  "state_read_motor_list_loop line m =
     (case read_motor_name line m of
        Inl f \<Rightarrow> Inl f
      | Inr (stp, m') \<Rightarrow> if stp then Inr m' else state_read_motor_list_loop line m')"
  by pat_completeness auto
termination
proof (relation "measure (\<lambda>(line, m). Suc (line_size m) - offset m)")
  show "wf (measure (\<lambda>(line, m). Suc (line_size m) - offset m))" by simp
next
  fix line :: string and m :: machine and x2 :: "bool \<times> machine" and stp :: bool and m' :: machine
  assume "read_motor_name line m = Inr x2" and "(stp, m') = x2" and "\<not> stp"
  then have run: "read_motor_name line m = Inr (False, m')" by simp
  have scan: "off \<le> off' \<and> off' \<le> max off n \<and> length buf' = length buf + (off' - off)"
    if "scan_chars ok line n off buf = (why, off', buf')"
    for ok line n off buf why off' buf'
    using that
  proof (induction ok line n off buf rule: scan_chars.induct)
    case (1 ok line n off buf)
    show ?case
    proof (cases "off < n \<and> ok (char_at line off) \<and> length buf < PARAM_MAX_LEN - 1")
      case True
      with "1.prems" have "scan_chars ok line n (Suc off) (buf @ [char_at line off]) = (why, off', buf')"
        by (subst (asm) scan_chars.simps) simp
      from "1.IH" [OF _ _ _ this] True show ?thesis by auto
    next
      case False
      with "1.prems" show ?thesis
        by (subst (asm) scan_chars.simps) (auto split: if_splits)
    qed
  qed
  obtain why off buf where
    sc: "scan_chars (\<lambda>c. isalnum c \<or> c = CHR ''-'' \<or> c = CHR ''_'') line (line_size m) (offset m) [] = (why, off, buf)"
    by (metis prod_cases3)
  from scan [OF sc] have adv: "offset m \<le> off" "off \<le> max (offset m) (line_size m)"
    "length buf = off - offset m" by simp_all
  from run sc have ne: "buf \<noteq> []"
    by (auto simp: read_motor_name_def Let_def fail_with_def
        split: scan_stop.splits if_splits sum.splits option.splits prod.splits)
  with adv have lt: "offset m < off" by (cases "off = offset m") auto
  with adv(2) have le: "off \<le> line_size m" by simp
  from run sc have "line_size m' = line_size m \<and> offset m' = Suc off"
    by (auto simp: read_motor_name_def Let_def fail_with_def append_motor_def
        split: scan_stop.splits if_splits sum.splits option.splits prod.splits)
  with lt le show "((line, m'), (line, m)) \<in> measure (\<lambda>(line, m). Suc (line_size m) - offset m)"
    by auto
qed

declare state_read_motor_list_loop.simps [simp del]

definition state_read_motor_list :: "machine \<Rightarrow> fault + machine" where
  "state_read_motor_list m =
     (case line_buff m of
        None \<Rightarrow> Inl NullPointer
      | Some line \<Rightarrow> state_read_motor_list_loop line m)"

text \<open>One pass of the \<open>while(!stop)\<close> loop of \<open>motor_config_state_machine\<close>.\<close>

definition sm_step :: "machine \<Rightarrow> fault + machine" where
  "sm_step m =
     (case motor_config_state m of
        READ_LINE \<Rightarrow> Inr (state_read_line m)
      | READ_PARAM \<Rightarrow> state_read_param m
      | READ_IDENTIFIER \<Rightarrow> state_read_identifier m
      | SET_IDENTIFIER \<Rightarrow> Inr (state_set_identifier m)
      | CHECK_PARAM \<Rightarrow> Inr (state_check_param m)
      | READ_VALUE \<Rightarrow> state_read_value m
      | SET_PARAM \<Rightarrow> state_set_param m
      | READ_MOTOR_LIST \<Rightarrow> state_read_motor_list m
      | FINISHED \<Rightarrow> Inr (m\<lparr>line_buff := None, sm_stop := True\<rparr>)
      | CLEANUP \<Rightarrow>
          Inr (m\<lparr>line_buff := None, line_size := 0, offset := 0, param_buff := [], value_buff := [],
                 err_str := [], param_size := 0, value_size := 0, motor_config_state := READ_LINE\<rparr>)
      | ERROR \<Rightarrow>
          Inr (m\<lparr>line_buff := None, stderr := stderr m @ [c_str (err_str m), [CHR 0x0A]],
                 sm_stop := True, sm_error := 1\<rparr>))"

text \<open>
  The state machine's loop. It need not end for every state, so it is a partial function:
  \<open>None\<close> is a run that never stops. \<open>sm_run\<close> is the same loop cut after a number of
  passes.
\<close>

partial_function (option) sm_loop :: "machine \<Rightarrow> (fault + machine) option" where
  "sm_loop m =
     (if sm_stop m then Some (Inr m)
      else (case sm_step m of Inl f \<Rightarrow> Some (Inl f) | Inr m' \<Rightarrow> sm_loop m'))"

fun sm_run :: "nat \<Rightarrow> machine \<Rightarrow> fault + machine" where
  "sm_run 0 m = Inr m"
| "sm_run (Suc k) m =
     (if sm_stop m then Inr m
      else (case sm_step m of Inl f \<Rightarrow> Inl f | Inr m' \<Rightarrow> sm_run k m'))"

text \<open>The state at the start of \<open>motor_config_state_machine\<close>, after \<open>read_motor_config\<close> has
  cleared the lists and marked every motor direction invalid.\<close>

definition empty_motor :: motor_config where
  "empty_motor = \<lparr>mc_name = [], mc_step_pin = 0, mc_dir_pin = 0, mc_microstep = 0, mc_steps_rot = 0,
     mc_direction = DIRECTION_INVALID, mc_motor = None\<rparr>"

definition empty_axis :: axis_config where
  "empty_axis = \<lparr>ac_name = [], ac_mm_rot = 0, ac_count = 0,
     ac_motors = replicate MOTOR_LIST_SIZE_MAX None, ac_axis = None\<rparr>"

definition initial :: "string list \<Rightarrow> machine" where
  "initial lines =
     \<lparr>motor_config_state = CLEANUP, err_str = [],
      motor_list = replicate MOTOR_LIST_SIZE_MAX empty_motor, motor_list_len = 0,
      axis_list = replicate MOTOR_LIST_SIZE_MAX empty_axis, axis_list_len = 0,
      sm_stop = False, sm_error = 0, line_buff = None, line_size = 0, offset = 0,
      param_buff = [], param_size = 0, param_id = INVALID_PARAM, value_buff = [], value_size = 0,
      last_id = INVALID_TYPE, config_file = lines, stderr = []\<rparr>"

text \<open>\<open>init_motors\<close>: the motors in list order, then the axes. \<open>stepper_init\<close> reserves GPIO
  lines and starts a worker; whether it succeeds for an entry is a parameter. The names of
  the objects constructed are collected; the diagnostics of \<open>init_motors\<close> are left out.\<close>

definition validate_motor_node :: "motor_config \<Rightarrow> bool" where
  "validate_motor_node node =
     (mc_dir_pin node \<noteq> 0 \<and> mc_step_pin node \<noteq> 0 \<and> mc_direction node \<noteq> DIRECTION_INVALID \<and>
      mc_name node \<noteq> [] \<and> mc_steps_rot node \<noteq> 0 \<and> mc_microstep node \<noteq> 0)"

definition validate_axis_node :: "axis_config \<Rightarrow> bool" where
  "validate_axis_node node = (ac_count node > 0 \<and> ac_mm_rot node > 0)"

function init_motor_loop :: "(motor_config \<Rightarrow> bool) \<Rightarrow> machine \<Rightarrow> nat \<Rightarrow> string list \<Rightarrow> fault + (int \<times> machine \<times> string list)" where
  "init_motor_loop ok m i made =
     (if int i < motor_list_len m then
        (if length (motor_list m) \<le> i then Inl OutOfBounds
         else if validate_motor_node (motor_list m ! i) then
           (if ok (motor_list m ! i)
            then init_motor_loop ok (m\<lparr>motor_list := (motor_list m)[i := (motor_list m ! i)\<lparr>mc_motor := Some i\<rparr>]\<rparr>)
                   (Suc i) (made @ [mc_name (motor_list m ! i)])
            else Inr (- 1, m, made))
         else Inr (- 1, m, made))
      else Inr (0, m, made))"
  by pat_completeness auto
termination
  by (relation "measure (\<lambda>(ok, m, i, made). nat (motor_list_len m) - i)") auto

declare init_motor_loop.simps [simp del]

text \<open>The handles \<open>axis_node->motors[j]->motor\<close> for \<open>j < count\<close>.\<close>

function axis_handles :: "machine \<Rightarrow> axis_config \<Rightarrow> nat \<Rightarrow> addr option list \<Rightarrow> fault + addr option list" where
  "axis_handles m node j hs =
     (if j < unat (ac_count node) then
        (if length (ac_motors node) \<le> j \<or> length hs \<le> j then Inl OutOfBounds
         else case ac_motors node ! j of
                None \<Rightarrow> Inl NullPointer
              | Some k \<Rightarrow>
                  if length (motor_list m) \<le> k then Inl InvalidPointer
                  else axis_handles m node (Suc j) (hs[j := mc_motor (motor_list m ! k)]))
      else Inr hs)"
  by pat_completeness auto
termination
  by (relation "measure (\<lambda>(m, node, j, hs). unat (ac_count node) - j)") auto

declare axis_handles.simps [simp del]

text \<open>The argument checks of \<open>axis_init\<close>.\<close>

definition axis_init_ok :: "addr option list \<Rightarrow> 32 word \<Rightarrow> 32 word \<Rightarrow> bool" where
  "axis_init_ok handles mm_rot count =
     (mm_rot \<noteq> 0 \<and> count \<noteq> 0 \<and> unat count \<le> MOTOR_LIST_SIZE_MAX \<and>
      list_all (\<lambda>h. h \<noteq> None) (take (unat count) handles))"

function init_axis_loop :: "machine \<Rightarrow> nat \<Rightarrow> string list \<Rightarrow> fault + (int \<times> string list)" where
  "init_axis_loop m i made =
     (if int i < axis_list_len m then
        (if length (axis_list m) \<le> i then Inl OutOfBounds
         else if validate_axis_node (axis_list m ! i) then
           (case axis_handles m (axis_list m ! i) 0 (replicate MOTOR_LIST_SIZE_MAX None) of
              Inl f \<Rightarrow> Inl f
            | Inr hs \<Rightarrow>
                if axis_init_ok hs (ac_mm_rot (axis_list m ! i)) (ac_count (axis_list m ! i))
                then init_axis_loop m (Suc i) (made @ [ac_name (axis_list m ! i)])
                else Inr (- 1, made))
         else Inr (- 1, made))
      else Inr (0, made))"
  by pat_completeness auto
termination
  by (relation "measure (\<lambda>(m, i, made). nat (axis_list_len m) - i)") auto

declare init_axis_loop.simps [simp del]

definition init_motors :: "(motor_config \<Rightarrow> bool) \<Rightarrow> machine \<Rightarrow> fault + (int \<times> string list \<times> string list)" where
  "init_motors ok m =
     (case init_motor_loop ok m 0 [] of
        Inl f \<Rightarrow> Inl f
      | Inr (rv, m', motors_made) \<Rightarrow>
          if rv \<noteq> 0 then Inr (rv, motors_made, [])
          else (case init_axis_loop m' 0 [] of
                  Inl f \<Rightarrow> Inl f
                | Inr (rv', axes_made) \<Rightarrow> Inr (rv', motors_made, axes_made)))"

text \<open>
  \<open>read_motor_config\<close> on the lines of the opened file: its return value, the lines on
  \<open>stderr\<close> and the objects constructed. \<open>None\<close> is a parse that never ends.
\<close>

record outcome =
  retval :: int
  printed :: "string list"
  steppers_made :: "string list"
  axes_made :: "string list"

definition read_motor_config :: "(motor_config \<Rightarrow> bool) \<Rightarrow> string list \<Rightarrow> (fault + outcome) option" where
  "read_motor_config ok lines =
     (case sm_loop (initial lines) of
        None \<Rightarrow> None
      | Some (Inl f) \<Rightarrow> Some (Inl f)
      | Some (Inr m) \<Rightarrow>
          if sm_error m = 0
          then (case init_motors ok m of
                  Inl f \<Rightarrow> Some (Inl f)
                | Inr (rv, ms, as) \<Rightarrow>
                    Some (Inr \<lparr>retval = rv, printed = stderr m, steppers_made = ms, axes_made = as\<rparr>))
          else Some (Inr \<lparr>retval = - sm_error m, printed = stderr m, steppers_made = [], axes_made = []\<rparr>))"

definition nl :: string where
  "nl = [CHR 0x0A]"

text \<open>Configuration files used below.\<close>

definition prefixed_names :: "string list" where
  "prefixed_names =
     [''[motorx]'' @ nl, ''namefoo=m1'' @ nl, ''step_pinx=7'' @ nl, ''dir_piny=8'' @ nl,
      ''steps_per_rotationz=200'' @ nl, ''directionq=clockwise'' @ nl, ''microstepw=16'' @ nl]"

definition nine_motors :: "string list" where
  "nine_motors =
     [''[motor]'' @ nl, ''[motor]'' @ nl, ''[motor]'' @ nl, ''[motor]'' @ nl, ''[motor]'' @ nl,
      ''[motor]'' @ nl, ''[motor]'' @ nl, ''[motor]'' @ nl, ''[motor]'' @ nl]"

definition nine_axes :: "string list" where
  "nine_axes =
     [''[axis]'' @ nl, ''[axis]'' @ nl, ''[axis]'' @ nl, ''[axis]'' @ nl, ''[axis]'' @ nl,
      ''[axis]'' @ nl, ''[axis]'' @ nl, ''[axis]'' @ nl, ''[axis]'' @ nl]"

text \<open>
  Notions for stating what the motor list of an axis refers to: the characters of a motor
  name, a well-formed name (non-empty, short enough for the value buffer), the characters
  that end a name in a list, the names of the motors defined so far, the free slots of
  the current axis entry, and the error text for an unknown motor.
\<close>

definition name_char :: "char \<Rightarrow> bool" where
  "name_char c = (isalnum c \<or> c = CHR ''-'' \<or> c = CHR ''_'')"

definition motor_name :: "string \<Rightarrow> bool" where
  "motor_name t = (t \<noteq> [] \<and> length t < PARAM_MAX_LEN \<and> list_all name_char t)"

definition list_end :: "char \<Rightarrow> bool" where
  "list_end c = (c = CHR '','' \<or> isblank c \<or> c = CHR ''#'' \<or> c = CHR 0x0A)"

definition defined_motors :: "machine \<Rightarrow> string list" where
  "defined_motors m = map mc_name (take (nat (motor_list_len m)) (motor_list m))"

definition free_slots :: "machine \<Rightarrow> nat" where
  "free_slots m =
     (let i = axis_list_len m - 1
      in if 0 \<le> i \<and> i < int (length (axis_list m)) \<and>
            length (ac_motors (axis_list m ! nat i)) = MOTOR_LIST_SIZE_MAX
         then MOTOR_LIST_SIZE_MAX - unat (ac_count (axis_list m ! nat i))
         else 0)"

definition not_found_msg :: "string \<Rightarrow> string" where
  "not_found_msg name = ''Motor '' @ name @ '' not found before axis definition in motor.conf''"

definition undefined_motor_file :: "string list" where
  "undefined_motor_file = [''[motor]'' @ nl, ''name=a'' @ nl, ''[axis]'' @ nl, ''motors=a,b'' @ nl]"

text \<open>The same file with no newline at its end.\<close>

definition unended_motor_file :: "string list" where
  "unended_motor_file = [''[motor]'' @ nl, ''name=a'' @ nl, ''[axis]'' @ nl, ''motors=a,b'']"

text \<open>
  What the passes of the state machine leave alone, and what holds of every state reached
  from the initial one.
\<close>

definition same_run :: "machine \<Rightarrow> machine \<Rightarrow> bool" where
  "same_run m m' =
     (sm_stop m' = sm_stop m \<and> stderr m' = stderr m \<and> sm_error m' = sm_error m \<and>
      line_buff m' = line_buff m \<and> line_size m' = line_size m \<and>
      length (motor_list m') = length (motor_list m))"

definition parse_inv :: "machine \<Rightarrow> bool" where
  "parse_inv m =
     ((sm_stop m \<or> stderr m = [] \<and> sm_error m = 0) \<and>
      (motor_config_state m \<in> {FINISHED, ERROR} \<or> \<not> sm_stop m) \<and>
      (\<forall>l. line_buff m = Some l \<longrightarrow> length l < line_size m) \<and>
      length (motor_list m) = MOTOR_LIST_SIZE_MAX)"

section \<open>Verified properties\<close>

subsection \<open>Speed setting\<close>

lemma set_speed_loop_keeps:
  "set_speed_loop ms p i n h = Inr (r, h') \<Longrightarrow> h a = Some m \<Longrightarrow> half_period m = 500000 div p
   \<Longrightarrow> \<exists>m'. h' a = Some m' \<and> half_period m' = 500000 div p"
proof (induction ms p i n h arbitrary: m rule: set_speed_loop.induct)
  case (1 ms p i n h)
  show ?case
  proof (cases "i < n")
    case False
    with "1.prems" show ?thesis by (simp add: set_speed_loop.simps)
  next
    case True
    with "1.prems"(1) obtain b k where d: "deref h ms i = Inr (b, k)"
      by (subst (asm) set_speed_loop.simps) (auto split: sum.splits)
    show ?thesis
    proof (cases "stepper_is_busy k")
      case True
      with "1.prems" d \<open>i < n\<close> show ?thesis
        by (subst (asm) set_speed_loop.simps) simp
    next
      case False
      let ?h = "h(b \<mapsto> k\<lparr>half_period := 500000 div p\<rparr>)"
      from "1.prems"(1) d False \<open>i < n\<close>
      have run: "set_speed_loop ms p (Suc i) n ?h = Inr (r, h')"
        by (subst (asm) set_speed_loop.simps) simp
      have "\<exists>m''. ?h a = Some m'' \<and> half_period m'' = 500000 div p"
        using "1.prems"(2,3) by simp
      then obtain m'' where "?h a = Some m''" "half_period m'' = 500000 div p"
        by blast
      from "1.IH" [OF \<open>i < n\<close> d refl False run this] show ?thesis .
    qed
  qed
qed

lemma set_speed_loop_success:
  "set_speed_loop ms p i n h = Inr (0, h') \<Longrightarrow> i \<le> j \<Longrightarrow> j < n
   \<Longrightarrow> \<exists>a m. j < length ms \<and> ms ! j = Some a \<and> h' a = Some m \<and> half_period m = 500000 div p"
proof (induction ms p i n h rule: set_speed_loop.induct)
  case (1 ms p i n h)
  from "1.prems" have lt: "i < n" by simp
  with "1.prems"(1) obtain b k where d: "deref h ms i = Inr (b, k)"
    by (subst (asm) set_speed_loop.simps) (auto split: sum.splits)
  from "1.prems"(1) d lt have idle: "\<not> stepper_is_busy k"
    by (subst (asm) set_speed_loop.simps) (auto split: if_splits)
  let ?h = "h(b \<mapsto> k\<lparr>half_period := 500000 div p\<rparr>)"
  from "1.prems"(1) d idle lt have run: "set_speed_loop ms p (Suc i) n ?h = Inr (0, h')"
    by (subst (asm) set_speed_loop.simps) simp
  show ?case
  proof (cases "j = i")
    case True
    from d have slot: "i < length ms" "ms ! i = Some b"
      by (auto simp: deref_def split: if_splits option.splits)
    have "?h b = Some (k\<lparr>half_period := 500000 div p\<rparr>)" by simp
    from set_speed_loop_keeps [OF run this] obtain m' where
      "h' b = Some m'" "half_period m' = 500000 div p" by auto
    with slot True show ?thesis by blast
  next
    case False
    with "1.prems"(2,3) have "Suc i \<le> j" "j < n" by simp_all
    from "1.IH" [OF lt d refl idle run this] show ?thesis .
  qed
qed

lemma clamp_pps_unat:
  "unat (if pps > MAX_PPS then MAX_PPS else pps) = min (unat pps) 4160"
  by (auto simp: MAX_PPS_def word_less_nat_alt min_def)

lemma half_period_unat:
  "unat ((500000 :: 32 word) div p) = 500000 div unat p"
  by (simp add: unat_div)

text \<open>
  C4. After a successful \<open>stepper_set_speed_multiple(motors, pps, count)\<close> (return value 0)
  the speed is positive and every motor of the list, slots \<open>0 .. count - 1\<close>, has
  \<open>half_period\<close> equal to 500000 divided (integer division) by \<open>min(pps, 4160)\<close>.
\<close>

theorem set_speed_multiple_half_period:
  assumes "stepper_set_speed_multiple (Some ms) pps count h = Inr (0, h')"
    and "i < unat count"
  shows "0 < unat pps \<and>
         (\<exists>a m. ms ! i = Some a \<and> h' a = Some m \<and>
                unat (half_period m) = 500000 div min (unat pps) 4160)"
proof -
  from assms(1) have pos: "pps \<noteq> 0"
    by (auto simp: stepper_set_speed_multiple_def split: if_splits)
  let ?p = "if pps > MAX_PPS then MAX_PPS else pps"
  from assms(1) pos have run: "set_speed_loop ms ?p 0 (unat count) h = Inr (0, h')"
    by (auto simp: stepper_set_speed_multiple_def split: if_splits)
  from set_speed_loop_success [OF run, of i] assms(2)
  obtain a m where am: "ms ! i = Some a" "h' a = Some m" "half_period m = 500000 div ?p"
    by auto
  have "unat (half_period m) = 500000 div min (unat pps) 4160"
    unfolding am(3) half_period_unat clamp_pps_unat ..
  moreover from pos have "0 < unat pps"
    by (simp add: unat_gt_0)
  ultimately show ?thesis using am by blast
qed

theorem set_speed_multiple_half_period_witness:
  "stepper_set_speed_multiple (Some [Some 1, Some 2]) 5000 2 two_idle =
     Inr (0, two_idle(1 \<mapsto> motor_A\<lparr>half_period := 120\<rparr>, 2 \<mapsto> motor_B\<lparr>half_period := 120\<rparr>))
   \<and> (1 :: nat) < unat (2 :: 32 word)
   \<and> (\<exists>a m. [Some 1, Some 2] ! 1 = Some a
         \<and> (two_idle(1 \<mapsto> motor_A\<lparr>half_period := 120\<rparr>, 2 \<mapsto> motor_B\<lparr>half_period := 120\<rparr>)) a = Some m
         \<and> unat (half_period m) = 500000 div min (unat (5000 :: 32 word)) 4160)"
proof -
  have run: "stepper_set_speed_multiple (Some [Some 1, Some 2]) 5000 2 two_idle =
     Inr (0, two_idle(1 \<mapsto> motor_A\<lparr>half_period := 120\<rparr>, 2 \<mapsto> motor_B\<lparr>half_period := 120\<rparr>))"
    by (simp add: stepper_set_speed_multiple_def MOTOR_LIST_SIZE_MAX_def MAX_PPS_def deref_def
        two_idle_def stepper_is_busy_def motor_A_def motor_B_def set_speed_loop.simps)
  have idx: "(1 :: nat) < unat (2 :: 32 word)" by simp
  from set_speed_multiple_half_period [OF run idx] run idx show ?thesis by blast
qed

text \<open>
  C2. \<open>stepper_set_speed_multiple\<close> tests and updates the motors in one loop: with an idle
  first motor and a busy second one the call returns -1, yet the first motor's
  \<open>half_period\<close> has gone from 2500 to 5000.
\<close>

theorem set_speed_multiple_busy_partial_update:
  "stepper_set_speed_multiple (Some [Some 1, Some 2]) 100 2 second_busy =
     Inr (- 1, second_busy(1 \<mapsto> motor_A\<lparr>half_period := 5000\<rparr>))
   \<and> map_option half_period (second_busy 1) = Some 2500
   \<and> map_option half_period ((second_busy(1 \<mapsto> motor_A\<lparr>half_period := 5000\<rparr>)) 1) = Some 5000"
  by (simp add: stepper_set_speed_multiple_def MOTOR_LIST_SIZE_MAX_def MAX_PPS_def deref_def
      second_busy_def stepper_is_busy_def motor_A_def motor_B_def set_speed_loop.simps)

text \<open>
  What holds of a rejected call: the motors in front of the first busy one have taken the
  new speed, and when the first motor of the list is the busy one nothing has changed.
\<close>

lemma set_speed_multiple_first_busy:
  assumes "ms \<noteq> []" and "ms ! 0 = Some a" and "h a = Some m" and "stepper_is_busy m"
  shows "\<exists>r. stepper_set_speed_multiple (Some ms) pps count h = Inr (r, h) \<and> r < 0"
proof -
  from assms have d: "deref h ms 0 = Inr (a, m)"
    by (simp add: deref_def)
  have "set_speed_loop ms q 0 (unat count) h = Inr (- 1, h)" if "count \<noteq> 0" for q
    using that d assms(4) by (subst set_speed_loop.simps) (simp add: unat_gt_0)
  then show ?thesis
    by (auto simp: stepper_set_speed_multiple_def)
qed

subsection \<open>Creating a request\<close>

lemma deref_Inr:
  "deref h ms i = Inr (a, m) \<longleftrightarrow> i < length ms \<and> ms ! i = Some a \<and> h a = Some m"
  by (auto simp: deref_def split: option.splits)

lemma copy_motors_success:
  "n \<le> length ml0 \<Longrightarrow> n \<le> length ms \<Longrightarrow> (\<forall>j. i \<le> j \<and> j < n \<longrightarrow> ms ! j \<noteq> None)
   \<Longrightarrow> \<exists>ml. copy_motors ms i n ml0 = Inr (Some ml)"
proof (induction ms i n ml0 rule: copy_motors.induct)
  case (1 ms i n ml)
  show ?case
  proof (cases "i < n")
    case False
    then show ?thesis by (simp add: copy_motors.simps)
  next
    case True
    with "1.prems" have a: "\<not> length ms \<le> i" "ms ! i \<noteq> None" "\<not> length ml \<le> i"
      by auto
    from "1.prems" have "\<exists>ml'. copy_motors ms (Suc i) n (ml[i := ms ! i]) = Inr (Some ml')"
      by (intro "1.IH" [OF True a]) auto
    with True a show ?thesis
      by (subst copy_motors.simps) simp
  qed
qed

lemma copy_motors_result:
  "copy_motors ms i n ml0 = Inr (Some ml) \<Longrightarrow>
     length ml = length ml0 \<and>
     (i < n \<longrightarrow> n \<le> length ml0 \<and> n \<le> length ms) \<and>
     (\<forall>j. i \<le> j \<and> j < n \<longrightarrow> ml ! j = ms ! j \<and> ms ! j \<noteq> None) \<and>
     (\<forall>j. j < i \<or> n \<le> j \<longrightarrow> ml ! j = ml0 ! j)"
proof (induction ms i n ml0 rule: copy_motors.induct)
  case (1 ms i n ml0)
  show ?case
  proof (cases "i < n")
    case False
    with "1.prems" show ?thesis by (auto simp add: copy_motors.simps)
  next
    case True
    with "1.prems" have a: "\<not> length ms \<le> i" "ms ! i \<noteq> None" "\<not> length ml0 \<le> i"
      by (subst (asm) copy_motors.simps, auto split: if_splits)+
    from "1.prems" True a have run: "copy_motors ms (Suc i) n (ml0[i := ms ! i]) = Inr (Some ml)"
      by (subst (asm) copy_motors.simps) simp
    note ih = "1.IH" [OF True a run]
    from ih have len: "length ml = length ml0" by simp
    from ih True a have bnd: "n \<le> length ml0 \<and> n \<le> length ms"
      by (cases "Suc i < n") auto
    have low: "ml ! j = ml0 ! j" if "j < i \<or> n \<le> j" for j
      using ih that True by auto
    have here: "ml ! i = ms ! i"
      using ih a by auto
    have rest: "ml ! j = ms ! j \<and> ms ! j \<noteq> None" if "i \<le> j" "j < n" for j
    proof (cases "j = i")
      case True
      with here a show ?thesis by simp
    next
      case False
      with that ih show ?thesis by auto
    qed
    from len bnd low rest show ?thesis by blast
  qed
qed

lemma bulk_add_success:
  "(\<forall>j. i \<le> j \<and> j < n \<longrightarrow> j < length ms \<and> (\<exists>a. ms ! j = Some a \<and> h a \<noteq> None))
   \<Longrightarrow> \<exists>b. bulk_add h ms i n bulk = Inr b"
proof (induction h ms i n bulk rule: bulk_add.induct)
  case (1 h ms i n bulk)
  show ?case
  proof (cases "i < n")
    case False
    then show ?thesis by (simp add: bulk_add.simps)
  next
    case True
    with "1.prems" obtain a m where d: "deref h ms i = Inr (a, m)"
      by (auto simp: deref_Inr)
    from "1.prems" have "\<exists>b. bulk_add h ms (Suc i) n (bulk @ [step_pin m]) = Inr b"
      by (intro "1.IH" [OF True d refl]) auto
    with True d show ?thesis
      by (subst bulk_add.simps) simp
  qed
qed

lemma bulk_add_valid:
  "bulk_add h ms i n bulk = Inr b \<Longrightarrow> i \<le> j \<Longrightarrow> j < n
   \<Longrightarrow> j < length ms \<and> (\<exists>a. ms ! j = Some a \<and> h a \<noteq> None)"
proof (induction h ms i n bulk rule: bulk_add.induct)
  case (1 h ms i n bulk)
  from "1.prems" have lt: "i < n" by simp
  with "1.prems"(1) obtain a m where d: "deref h ms i = Inr (a, m)"
    by (subst (asm) bulk_add.simps) (auto split: sum.splits)
  from "1.prems"(1) lt d have run: "bulk_add h ms (Suc i) n (bulk @ [step_pin m]) = Inr b"
    by (subst (asm) bulk_add.simps) simp
  show ?case
  proof (cases "j = i")
    case True
    with d show ?thesis by (auto simp: deref_Inr)
  next
    case False
    with "1.prems" have "Suc i \<le> j" by simp
    from "1.IH" [OF lt d refl run this "1.prems"(3)] show ?thesis .
  qed
qed

lemma link_motors_frame:
  "link_motors ms i n r mx h = Inr h' \<Longrightarrow> h a = Some m \<Longrightarrow>
     \<exists>x y. h' a = Some (m\<lparr>current_req := x, shared_mutex := y\<rparr>) \<and>
           (current_req m = Some r \<and> shared_mutex m = Some mx \<longrightarrow> x = Some r \<and> y = Some mx)"
proof (induction ms i n r mx h arbitrary: m rule: link_motors.induct)
  case (1 ms i n r mx h)
  show ?case
  proof (cases "i < n")
    case False
    with "1.prems" have "h' = h" by (simp add: link_motors.simps)
    with "1.prems" show ?thesis
      by (intro exI [of _ "current_req m"] exI [of _ "shared_mutex m"]) simp
  next
    case True
    with "1.prems"(1) obtain b k where d: "deref h ms i = Inr (b, k)"
      by (subst (asm) link_motors.simps) (auto split: sum.splits)
    let ?k = "k\<lparr>current_req := Some r, shared_mutex := Some mx\<rparr>"
    let ?h = "h(b \<mapsto> ?k)"
    from "1.prems"(1) True d have run: "link_motors ms (Suc i) n r mx ?h = Inr h'"
      by (subst (asm) link_motors.simps) simp
    show ?thesis
    proof (cases "a = b")
      case False
      with "1.prems"(2) have "?h a = Some m" by simp
      from "1.IH" [OF True d refl run this] show ?thesis .
    next
      case same: True
      with d "1.prems"(2) have km: "k = m" by (simp add: deref_Inr)
      from same have "?h a = Some ?k" by simp
      from "1.IH" [OF True d refl run this] km
      have "h' a = Some (m\<lparr>current_req := Some r, shared_mutex := Some mx\<rparr>)" by auto
      then show ?thesis
        by (intro exI [of _ "Some r"] exI [of _ "Some mx"]) simp
    qed
  qed
qed

lemma link_motors_None:
  "link_motors ms i n r mx h = Inr h' \<Longrightarrow> h a = None \<Longrightarrow> h' a = None"
proof (induction ms i n r mx h rule: link_motors.induct)
  case (1 ms i n r mx h)
  show ?case
  proof (cases "i < n")
    case False
    with "1.prems" show ?thesis by (simp add: link_motors.simps)
  next
    case True
    with "1.prems"(1) obtain b k where d: "deref h ms i = Inr (b, k)"
      by (subst (asm) link_motors.simps) (auto split: sum.splits)
    let ?h = "h(b \<mapsto> k\<lparr>current_req := Some r, shared_mutex := Some mx\<rparr>)"
    from "1.prems"(1) True d have run: "link_motors ms (Suc i) n r mx ?h = Inr h'"
      by (subst (asm) link_motors.simps) simp
    from d "1.prems"(2) have "a \<noteq> b" by (auto simp: deref_Inr)
    with "1.prems"(2) have "?h a = None" by simp
    from "1.IH" [OF True d refl run this] show ?thesis .
  qed
qed

lemma link_motors_linked:
  "link_motors ms i n r mx h = Inr h' \<Longrightarrow> i \<le> j \<Longrightarrow> j < n \<Longrightarrow>
     \<exists>a m'. j < length ms \<and> ms ! j = Some a \<and> h' a = Some m' \<and>
            current_req m' = Some r \<and> shared_mutex m' = Some mx"
proof (induction ms i n r mx h rule: link_motors.induct)
  case (1 ms i n r mx h)
  from "1.prems" have lt: "i < n" by simp
  with "1.prems"(1) obtain b k where d: "deref h ms i = Inr (b, k)"
    by (subst (asm) link_motors.simps) (auto split: sum.splits)
  let ?k = "k\<lparr>current_req := Some r, shared_mutex := Some mx\<rparr>"
  let ?h = "h(b \<mapsto> ?k)"
  from "1.prems"(1) lt d have run: "link_motors ms (Suc i) n r mx ?h = Inr h'"
    by (subst (asm) link_motors.simps) simp
  show ?case
  proof (cases "j = i")
    case True
    have "?h b = Some ?k" by simp
    from link_motors_frame [OF run this] obtain x y where
      "h' b = Some (?k\<lparr>current_req := x, shared_mutex := y\<rparr>)" "x = Some r" "y = Some mx"
      by auto
    with d True show ?thesis by (auto simp: deref_Inr)
  next
    case False
    with "1.prems" have "Suc i \<le> j" by simp
    from "1.IH" [OF lt d refl run this "1.prems"(3)] show ?thesis .
  qed
qed

lemma link_motors_success:
  "(\<forall>j. i \<le> j \<and> j < n \<longrightarrow> j < length ms \<and> (\<exists>a. ms ! j = Some a \<and> h a \<noteq> None))
   \<Longrightarrow> \<exists>h'. link_motors ms i n r mx h = Inr h'"
proof (induction ms i n r mx h rule: link_motors.induct)
  case (1 ms i n r mx h)
  show ?case
  proof (cases "i < n")
    case False
    then show ?thesis by (simp add: link_motors.simps)
  next
    case True
    with "1.prems" obtain a m where d: "deref h ms i = Inr (a, m)"
      by (auto simp: deref_Inr)
    let ?h = "h(a \<mapsto> m\<lparr>current_req := Some r, shared_mutex := Some mx\<rparr>)"
    have "j < length ms \<and> (\<exists>b. ms ! j = Some b \<and> ?h b \<noteq> None)" if "Suc i \<le> j \<and> j < n" for j
    proof -
      from "1.prems" that obtain b where "j < length ms" "ms ! j = Some b" "h b \<noteq> None"
        by (metis Suc_leD)
      then show ?thesis by (cases "b = a") auto
    qed
    then have "\<exists>h'. link_motors ms (Suc i) n r mx ?h = Inr h'"
      by (intro "1.IH" [OF True d refl]) blast
    with True d show ?thesis
      by (subst link_motors.simps) simp
  qed
qed

text \<open>What a successful \<open>stepper_create_new_request\<close> has done.\<close>

lemma create_new_request_Some:
  assumes "stepper_create_new_request e ms count n_steps s = Inr (Some r, s')"
  shows "\<exists>ml bulk mx h'.
           new_request e = Some r \<and> new_mutex e = Some mx \<and>
           copy_motors ms 0 (unat count) (replicate MOTOR_LIST_SIZE_MAX None) = Inr (Some ml) \<and>
           bulk_add (steppers s) ms 0 (unat count) [] = Inr bulk \<and>
           link_motors ms 0 (unat count) r mx (steppers s) = Inr h' \<and>
           s' = s\<lparr>steppers := h',
                  requests := (requests s)(r \<mapsto>
                    \<lparr>req_motor_list = ml, req_motor_waiting = None, req_pin_bulk = bulk,
                     req_count = count, req_steps = n_steps\<rparr>)\<rparr>"
  using assms
  by (auto simp: stepper_create_new_request_def split: option.splits sum.splits if_splits)

lemma create_new_request_success:
  assumes "new_request e = Some r" and "bulk_granted e" and "new_mutex e = Some mx"
    and "mutex_init_ok e" and "unat count \<le> MOTOR_LIST_SIZE_MAX"
    and "\<forall>j < unat count. j < length ms \<and> (\<exists>a. ms ! j = Some a \<and> steppers s a \<noteq> None)"
  shows "\<exists>s'. stepper_create_new_request e ms count n_steps s = Inr (Some r, s')"
proof -
  from assms(6) have len: "unat count \<le> length ms"
    by (cases "unat count") auto
  from assms(6) have some: "\<forall>j. 0 \<le> j \<and> j < unat count \<longrightarrow> ms ! j \<noteq> None"
    by auto
  from copy_motors_success [OF _ len some, of "replicate MOTOR_LIST_SIZE_MAX None"] assms(5)
  obtain ml where c: "copy_motors ms 0 (unat count) (replicate MOTOR_LIST_SIZE_MAX None) = Inr (Some ml)"
    by auto
  from assms(6) have valid: "\<forall>j. 0 \<le> j \<and> j < unat count \<longrightarrow>
      j < length ms \<and> (\<exists>a. ms ! j = Some a \<and> steppers s a \<noteq> None)"
    by simp
  from bulk_add_success [OF valid] obtain bulk where
    b: "bulk_add (steppers s) ms 0 (unat count) [] = Inr bulk" by blast
  from link_motors_success [OF valid] obtain h' where
    l: "link_motors ms 0 (unat count) r mx (steppers s) = Inr h'" by blast
  from assms(1-4) c b l show ?thesis
    by (simp add: stepper_create_new_request_def)
qed

lemma unat_of_positive_sint:
  fixes w :: "32 word"
  assumes "0 < sint w" and "sint w \<le> 8"
  shows "unat w \<le> 8" and "0 < unat w"
proof -
  from assms have "take_bit LENGTH(32) (sint w) = sint w"
    by (intro take_bit_int_eq_self) simp_all
  then have "uint w = sint w" by (simp add: uint_sint)
  with assms show "unat w \<le> 8" and "0 < unat w" by (simp_all add: unat_eq_nat_uint)
qed

text \<open>
  C3. \<open>stepper_step_multiple\<close> is rejected whenever the first motor of the list is busy:
  it returns -1 and leaves the state as it was, so no request is created. The busy test
  looks at the first motor only: with an idle first motor, valid arguments and granted
  resources the call returns 0 and creates the request, whatever the other motors of the
  list are doing.
\<close>

theorem step_multiple_first_motor_gate:
  assumes "ms \<noteq> []" and "ms ! 0 = Some a" and "steppers s a = Some m"
  shows "(stepper_is_busy m \<longrightarrow> stepper_step_multiple e (Some ms) n_steps count s = Inr (- 1, s)) \<and>
         (\<not> stepper_is_busy m \<and> n_steps \<noteq> 0 \<and> 0 < sint count \<and> sint count \<le> 8 \<and>
          (\<forall>j < unat count. j < length ms \<and> (\<exists>b. ms ! j = Some b \<and> steppers s b \<noteq> None)) \<and>
          new_request e = Some r \<and> bulk_granted e \<and> new_mutex e = Some mx \<and> mutex_init_ok e
          \<longrightarrow> (\<exists>s' rq. stepper_step_multiple e (Some ms) n_steps count s = Inr (0, s') \<and>
                 requests s' r = Some rq \<and> req_count rq = count \<and> req_steps rq = n_steps))"
proof (intro conjI impI)
  from assms have d: "deref (steppers s) ms 0 = Inr (a, m)"
    by (simp add: deref_Inr)
  {
    assume "stepper_is_busy m"
    with d show "stepper_step_multiple e (Some ms) n_steps count s = Inr (- 1, s)"
      by (simp add: stepper_step_multiple_def)
  }
  {
    assume h: "\<not> stepper_is_busy m \<and> n_steps \<noteq> 0 \<and> 0 < sint count \<and> sint count \<le> 8 \<and>
          (\<forall>j < unat count. j < length ms \<and> (\<exists>b. ms ! j = Some b \<and> steppers s b \<noteq> None)) \<and>
          new_request e = Some r \<and> bulk_granted e \<and> new_mutex e = Some mx \<and> mutex_init_ok e"
    then have cnt: "unat count \<le> MOTOR_LIST_SIZE_MAX" "count \<noteq> 0"
      using unat_of_positive_sint [of count] by (auto simp: MOTOR_LIST_SIZE_MAX_def)
    from h have valid: "\<forall>j < unat count. j < length ms \<and> (\<exists>b. ms ! j = Some b \<and> steppers s b \<noteq> None)"
      by blast
    from h create_new_request_success [OF _ _ _ _ cnt(1) valid, of e r mx n_steps]
    obtain s1 where c: "stepper_create_new_request e ms count n_steps s = Inr (Some r, s1)"
      by blast
    from create_new_request_Some [OF c] obtain ml bulk mx' h' where
      l: "link_motors ms 0 (unat count) r mx' (steppers s) = Inr h'"
      and s1: "s1 = s\<lparr>steppers := h',
                  requests := (requests s)(r \<mapsto>
                    \<lparr>req_motor_list = ml, req_motor_waiting = None, req_pin_bulk = bulk,
                     req_count = count, req_steps = n_steps\<rparr>)\<rparr>"
      by blast
    from link_motors_frame [OF l assms(3)] obtain m1 where m1: "h' a = Some m1"
      by blast
    with s1 have "steppers s1 a = Some m1" by simp
    with h d c cnt have "stepper_step_multiple e (Some ms) n_steps count s =
        Inr (0, s1\<lparr>steppers := (steppers s1)(a \<mapsto> m1\<lparr>req_available := 1\<rparr>),
                   trace := trace s1 @ [SignalReq a]\<rparr>)"
      by (simp add: stepper_step_multiple_def MOTOR_LIST_SIZE_MAX_def)
    with s1 show "\<exists>s' rq. stepper_step_multiple e (Some ms) n_steps count s = Inr (0, s') \<and>
        requests s' r = Some rq \<and> req_count rq = count \<and> req_steps rq = n_steps"
      by simp
  }
qed

theorem step_multiple_first_motor_gate_witness:
  "stepper_step_multiple all_granted (Some [Some 1, Some 2]) 400 2
       \<lparr>steppers = first_busy, requests = Map.empty, trace = []\<rparr>
     = Inr (- 1, \<lparr>steppers = first_busy, requests = Map.empty, trace = []\<rparr>)
   \<and> map_option stepper_is_busy (second_busy 2) = Some True
   \<and> (\<exists>s' rq. stepper_step_multiple all_granted (Some [Some 1, Some 2]) 400 2
                  \<lparr>steppers = second_busy, requests = Map.empty, trace = []\<rparr> = Inr (0, s')
         \<and> requests s' 10 = Some rq \<and> req_count rq = 2 \<and> req_steps rq = 400)"
proof -
  let ?ms = "[Some 1, Some (2 :: nat)]"
  let ?s1 = "\<lparr>steppers = first_busy, requests = Map.empty, trace = []\<rparr>"
  let ?s2 = "\<lparr>steppers = second_busy, requests = Map.empty, trace = []\<rparr>"
  have ne: "?ms \<noteq> []" and hd: "?ms ! 0 = Some 1" by simp_all
  have m1: "steppers ?s1 1 = Some (motor_A\<lparr>current_req := Some 10, shared_mutex := Some 11\<rparr>)"
    by (simp add: first_busy_def)
  have busy: "stepper_is_busy (motor_A\<lparr>current_req := Some 10, shared_mutex := Some 11\<rparr>)"
    by (simp add: stepper_is_busy_def)
  have m2: "steppers ?s2 1 = Some motor_A"
    by (simp add: second_busy_def)
  have slots: "\<forall>j < unat (2 :: 32 word). j < length ?ms \<and> (\<exists>b. ?ms ! j = Some b \<and> steppers ?s2 b \<noteq> None)"
  proof (intro allI impI)
    fix j :: nat
    assume "j < unat (2 :: 32 word)"
    then have "j = 0 \<or> j = 1" by auto
    then show "j < length ?ms \<and> (\<exists>b. ?ms ! j = Some b \<and> steppers ?s2 b \<noteq> None)"
      by (elim disjE) (simp_all add: second_busy_def)
  qed
  have pre: "\<not> stepper_is_busy motor_A \<and> (400 :: 32 word) \<noteq> 0 \<and> 0 < sint (2 :: 32 word) \<and>
      sint (2 :: 32 word) \<le> 8 \<and>
      (\<forall>j < unat (2 :: 32 word). j < length ?ms \<and> (\<exists>b. ?ms ! j = Some b \<and> steppers ?s2 b \<noteq> None)) \<and>
      new_request all_granted = Some 10 \<and> bulk_granted all_granted \<and>
      new_mutex all_granted = Some 11 \<and> mutex_init_ok all_granted"
  proof (intro conjI)
    show "\<not> stepper_is_busy motor_A" by (simp add: stepper_is_busy_def motor_A_def)
    show "\<forall>j < unat (2 :: 32 word). j < length ?ms \<and> (\<exists>b. ?ms ! j = Some b \<and> steppers ?s2 b \<noteq> None)"
      by (rule slots)
  qed (simp_all add: all_granted_def)
  have other: "map_option stepper_is_busy (second_busy 2) = Some True"
    by (simp add: second_busy_def stepper_is_busy_def)
  note a = step_multiple_first_motor_gate [where e = all_granted and n_steps = 400 and count = 2,
      OF ne hd m1, THEN conjunct1, THEN mp, OF busy]
  note b = step_multiple_first_motor_gate [where e = all_granted and n_steps = 400 and count = 2
      and r = 10 and mx = 11, OF ne hd m2, THEN conjunct2, THEN mp, OF pre]
  show ?thesis by (intro conjI a other b)
qed

subsection \<open>The pulse loop\<close>

lemma fold_stop_flag_frame:
  "h a = Some m \<Longrightarrow> \<exists>x. fold stop_flag as h a = Some (m\<lparr>stop := x\<rparr>) \<and> (a \<notin> set as \<longrightarrow> x = stop m)"
proof (induction as arbitrary: h m)
  case Nil
  then show ?case by (intro exI [of _ "stop m"]) simp
next
  case (Cons b as)
  show ?case
  proof (cases "a = b")
    case True
    with Cons.prems have "stop_flag b h a = Some (m\<lparr>stop := (if stepper_is_busy m then 1 else 0)\<rparr>)"
      by (simp add: stop_flag_def)
    from Cons.IH [of "stop_flag b h" "m\<lparr>stop := (if stepper_is_busy m then 1 else 0)\<rparr>", OF this] True
    show ?thesis by auto
  next
    case False
    with Cons.prems have "stop_flag b h a = Some m"
      by (simp add: stop_flag_def split: option.splits)
    from Cons.IH [of "stop_flag b h" m, OF this] False show ?thesis by auto
  qed
qed

lemma count_steps_frame:
  "count_steps ml i n stp h tr = Inr (stp', h', tr') \<Longrightarrow> h a = Some m \<Longrightarrow>
     h' a = Some (m\<lparr>steps := steps m + step_delta m * of_nat (count_list (drop i (take n ml)) (Some a))\<rparr>)"
proof (induction ml i n stp h tr arbitrary: m rule: count_steps.induct)
  case (1 ml i n stp h tr)
  show ?case
  proof (cases "i < n")
    case False
    with "1.prems" show ?thesis by (simp add: count_steps.simps)
  next
    case True
    with "1.prems"(1) obtain b node where d: "deref h ml i = Inr (b, node)"
      by (subst (asm) count_steps.simps) (auto split: sum.splits)
    let ?node = "node\<lparr>steps := (if curr_direction node = pos_direction node
                                        then steps node + 1 else steps node - 1)\<rparr>"
    from "1.prems"(1) True d
    have run: "count_steps ml (Suc i) n (stp OR stop node) (h(b \<mapsto> ?node)) (tr @ [ReadStop b]) = Inr (stp', h', tr')"
      by (subst (asm) count_steps.simps) simp
    from d have slot: "i < length ml" "ml ! i = Some b" "h b = Some node"
      by (simp_all add: deref_Inr)
    with True have split: "drop i (take n ml) = Some b # drop (Suc i) (take n ml)"
      by (simp add: Cons_nth_drop_Suc [symmetric])
    show ?thesis
    proof (cases "a = b")
      case False
      with "1.prems"(2) have "(h(b \<mapsto> ?node)) a = Some m" by simp
      from "1.IH" [OF True d refl run this] False split show ?thesis by simp
    next
      case same: True
      with slot "1.prems"(2) have nm: "node = m" by simp
      from same have "(h(b \<mapsto> ?node)) a = Some ?node" by simp
      from "1.IH" [OF True d refl run this] nm same split show ?thesis
        by (simp add: step_delta_def algebra_simps)
    qed
  qed
qed

lemma count_steps_stop:
  "count_steps ml i n stp h tr = Inr (stp', h', tr') \<Longrightarrow>
     (stp' = 0) = (stp = 0 \<and> (\<forall>j. i \<le> j \<and> j < n \<longrightarrow> (\<exists>a m. ml ! j = Some a \<and> h a = Some m \<and> stop m = 0)))"
proof (induction ml i n stp h tr rule: count_steps.induct)
  case (1 ml i n stp h tr)
  show ?case
  proof (cases "i < n")
    case False
    with "1.prems" show ?thesis by (auto simp add: count_steps.simps)
  next
    case True
    with "1.prems"(1) obtain b node where d: "deref h ml i = Inr (b, node)"
      by (subst (asm) count_steps.simps) (auto split: sum.splits)
    let ?node = "node\<lparr>steps := (if curr_direction node = pos_direction node
                                        then steps node + 1 else steps node - 1)\<rparr>"
    let ?h = "h(b \<mapsto> ?node)"
    from "1.prems"(1) True d
    have run: "count_steps ml (Suc i) n (stp OR stop node) ?h (tr @ [ReadStop b]) = Inr (stp', h', tr')"
      by (subst (asm) count_steps.simps) simp
    from d have slot: "ml ! i = Some b" "h b = Some node"
      by (simp_all add: deref_Inr)
    have same: "(\<exists>m. ?h a = Some m \<and> stop m = 0) = (\<exists>m. h a = Some m \<and> stop m = 0)" for a
      using slot by (cases "a = b") auto
    have here: "(\<forall>j. i \<le> j \<and> j < n \<longrightarrow> P j) = (P i \<and> (\<forall>j. Suc i \<le> j \<and> j < n \<longrightarrow> P j))" for P
      using True by (metis Suc_leI le_neq_implies_less order_refl Suc_leD)
    have "(stp' = 0) = (stp OR stop node = 0 \<and>
        (\<forall>j. Suc i \<le> j \<and> j < n \<longrightarrow> (\<exists>a m. ml ! j = Some a \<and> ?h a = Some m \<and> stop m = 0)))"
      by (rule "1.IH" [OF True d refl run])
    also have "\<dots> = (stp = 0 \<and> stop node = 0 \<and>
        (\<forall>j. Suc i \<le> j \<and> j < n \<longrightarrow> (\<exists>a. ml ! j = Some a \<and> (\<exists>m. h a = Some m \<and> stop m = 0))))"
      by (simp only: same or_eq_0_iff conj_assoc ex_simps)
    also have "\<dots> = (stp = 0 \<and>
        (\<forall>j. i \<le> j \<and> j < n \<longrightarrow> (\<exists>a. ml ! j = Some a \<and> (\<exists>m. h a = Some m \<and> stop m = 0))))"
      unfolding here [of "\<lambda>j. \<exists>a. ml ! j = Some a \<and> (\<exists>m. h a = Some m \<and> stop m = 0)"]
      using slot by simp
    finally show ?thesis by simp
  qed
qed

lemma count_steps_trace:
  "count_steps ml i n stp h tr = Inr (stp', h', tr') \<Longrightarrow>
     \<exists>ext. tr' = tr @ ext \<and> pulses ext = 0"
proof (induction ml i n stp h tr rule: count_steps.induct)
  case (1 ml i n stp h tr)
  show ?case
  proof (cases "i < n")
    case False
    with "1.prems" show ?thesis by (simp add: count_steps.simps pulses_def)
  next
    case True
    with "1.prems"(1) obtain b node where d: "deref h ml i = Inr (b, node)"
      by (subst (asm) count_steps.simps) (auto split: sum.splits)
    let ?node = "node\<lparr>steps := (if curr_direction node = pos_direction node
                                        then steps node + 1 else steps node - 1)\<rparr>"
    from "1.prems"(1) True d
    have run: "count_steps ml (Suc i) n (stp OR stop node) (h(b \<mapsto> ?node)) (tr @ [ReadStop b]) = Inr (stp', h', tr')"
      by (subst (asm) count_steps.simps) simp
    from "1.IH" [OF True d refl run] obtain ext where "tr' = (tr @ [ReadStop b]) @ ext" "pulses ext = 0"
      by blast
    then have "tr' = tr @ (ReadStop b # ext) \<and> pulses (ReadStop b # ext) = 0"
      by (simp add: pulses_def)
    then show ?thesis by blast
  qed
qed

lemma count_steps_success:
  "(\<forall>j. i \<le> j \<and> j < n \<longrightarrow> j < length ml \<and> (\<exists>a. ml ! j = Some a \<and> h a \<noteq> None))
   \<Longrightarrow> \<exists>res. count_steps ml i n stp h tr = Inr res"
proof (induction ml i n stp h tr rule: count_steps.induct)
  case (1 ml i n stp h tr)
  show ?case
  proof (cases "i < n")
    case False
    then show ?thesis by (simp add: count_steps.simps)
  next
    case True
    with "1.prems" obtain a m where d: "deref h ml i = Inr (a, m)"
      by (auto simp: deref_Inr)
    let ?m = "m\<lparr>steps := (if curr_direction m = pos_direction m then steps m + 1 else steps m - 1)\<rparr>"
    let ?h = "h(a \<mapsto> ?m)"
    have "j < length ml \<and> (\<exists>b. ml ! j = Some b \<and> ?h b \<noteq> None)" if "Suc i \<le> j \<and> j < n" for j
    proof -
      from "1.prems" that obtain b where "j < length ml" "ml ! j = Some b" "h b \<noteq> None"
        by (metis Suc_leD)
      then show ?thesis by (cases "b = a") auto
    qed
    then have "\<exists>res. count_steps ml (Suc i) n (stp OR stop m) ?h (tr @ [ReadStop a]) = Inr res"
      by (intro "1.IH" [OF True d refl]) blast
    with True d show ?thesis
      by (subst count_steps.simps) simp
  qed
qed

lemma pulses_append: "pulses (xs @ ys) = pulses xs + pulses ys"
  by (simp add: pulses_def)

lemma pulses_one: "pulses [BulkHigh, Sleep hp, BulkLow, Sleep hp] = 1"
  by (simp add: pulses_def)

text \<open>One pass through the body of the \<open>do ... while\<close> loop.\<close>

lemma pulse_body_frame:
  assumes "count_steps ml 0 num stp (fold stop_flag as h) tr = Inr (stp', h', tr')"
    and "h a = Some m"
  shows "\<exists>m'. h' a = Some m' \<and>
           steps m' = steps m + step_delta m * of_nat (count_list (take num ml) (Some a)) \<and>
           step_delta m' = step_delta m \<and> (a \<notin> set as \<longrightarrow> stop m' = stop m)"
proof -
  from fold_stop_flag_frame [of h a m as, OF assms(2)] obtain x where
    x: "fold stop_flag as h a = Some (m\<lparr>stop := x\<rparr>)" "a \<notin> set as \<longrightarrow> x = stop m"
    by blast
  from count_steps_frame [OF assms(1) x(1)] x(2) show ?thesis
    by (simp add: step_delta_def)
qed

lemma pulse_loop_steps:
  "pulse_loop sched ml num hp p req stp h tr = Inr (left, h', tr') \<Longrightarrow>
     \<exists>k ext. 1 \<le> k \<and> (req \<noteq> 0 \<longrightarrow> k \<le> unat req) \<and>
        tr' = tr @ [BulkHigh, Sleep hp, BulkLow, Sleep hp] @ ext \<and>
        pulses tr' = pulses tr + k \<and>
        (\<forall>a m. h a = Some m \<longrightarrow>
           (\<exists>m'. h' a = Some m' \<and>
              steps m' = steps m + step_delta m * of_nat (k * count_list (take num ml) (Some a)) \<and>
              step_delta m' = step_delta m))"
proof (induction sched ml num hp p req stp h tr rule: pulse_loop.induct)
  case (1 sched ml num hp p req stp h tr)
  let ?pulse = "[BulkHigh, Sleep hp, BulkLow, Sleep hp]"
  from "1.prems" obtain stp1 h1 tr1 where
    body: "count_steps ml 0 num stp (fold stop_flag (sched p) h) (tr @ ?pulse) = Inr (stp1, h1, tr1)"
    by (subst (asm) pulse_loop.simps) (auto split: sum.splits)
  from count_steps_trace [OF body] obtain e1 where
    tr1: "tr1 = (tr @ ?pulse) @ e1" "pulses e1 = 0" by blast
  then have p1: "pulses tr1 = pulses tr + 1"
    by (simp only: pulses_append pulses_one)
  note frame = pulse_body_frame [OF body]
  show ?case
  proof (cases "req - 1 \<noteq> 0 \<and> stp1 = 0")
    case False
    with "1.prems" body have "h' = h1 \<and> tr' = tr1"
      by (subst (asm) pulse_loop.simps) (simp split: if_splits)
    then have res: "h' = h1" "tr' = tr1" by simp_all
    have one: "req \<noteq> 0 \<longrightarrow> 1 \<le> unat req"
      by (simp add: unat_gt_0 Suc_leI)
    have "\<exists>m'. h' a = Some m' \<and>
              steps m' = steps m + step_delta m * of_nat (1 * count_list (take num ml) (Some a)) \<and>
              step_delta m' = step_delta m" if "h a = Some m" for a m
      using frame [OF that] res by auto
    with one p1 tr1 res show ?thesis
      by (intro exI [of _ 1] exI [of _ e1]) simp
  next
    case True
    with "1.prems" body
    have run: "pulse_loop sched ml num hp (Suc p) (req - 1) stp1 h1 tr1 = Inr (left, h', tr')"
      by (subst (asm) pulse_loop.simps) simp
    from "1.IH" [OF body refl refl True run] obtain k ext where
      k: "1 \<le> k" "req - 1 \<noteq> 0 \<longrightarrow> k \<le> unat (req - 1)"
        "tr' = tr1 @ ?pulse @ ext" "pulses tr' = pulses tr1 + k"
      and st: "\<forall>a m. h1 a = Some m \<longrightarrow>
           (\<exists>m'. h' a = Some m' \<and>
              steps m' = steps m + step_delta m * of_nat (k * count_list (take num ml) (Some a)) \<and>
              step_delta m' = step_delta m)"
      by blast
    have bound: "req \<noteq> 0 \<longrightarrow> Suc k \<le> unat req"
    proof
      assume "req \<noteq> 0"
      then have "unat (req - 1) = unat req - 1" by (rule unat_minus_one)
      moreover from \<open>req \<noteq> 0\<close> have "0 < unat req" by (simp add: unat_gt_0)
      ultimately show "Suc k \<le> unat req" using k(2) True by simp
    qed
    have steps: "\<exists>m'. h' a = Some m' \<and>
              steps m' = steps m + step_delta m * of_nat (Suc k * count_list (take num ml) (Some a)) \<and>
              step_delta m' = step_delta m" if "h a = Some m" for a m
    proof -
      from frame [OF that] obtain m1 where m1: "h1 a = Some m1"
        "steps m1 = steps m + step_delta m * of_nat (count_list (take num ml) (Some a))"
        "step_delta m1 = step_delta m" by blast
      from st m1(1) obtain m' where m': "h' a = Some m'"
        "steps m' = steps m1 + step_delta m1 * of_nat (k * count_list (take num ml) (Some a))"
        "step_delta m' = step_delta m1" by blast
      from m1 m' show ?thesis by (simp add: algebra_simps)
    qed
    from k(3) tr1 have "tr' = tr @ ?pulse @ (e1 @ ?pulse @ ext)" by simp
    moreover from k(4) p1 have "pulses tr' = pulses tr + Suc k" by simp
    ultimately show ?thesis using bound steps
      by (intro exI [of _ "Suc k"] exI [of _ "e1 @ ?pulse @ ext"]) simp
  qed
qed

lemma pulse_loop_success:
  "(\<forall>j < num. j < length ml \<and> (\<exists>a. ml ! j = Some a \<and> h a \<noteq> None))
   \<Longrightarrow> \<exists>res. pulse_loop sched ml num hp p req stp h tr = Inr res"
proof (induction sched ml num hp p req stp h tr rule: pulse_loop.induct)
  case (1 sched ml num hp p req stp h tr)
  let ?pulse = "[BulkHigh, Sleep hp, BulkLow, Sleep hp]"
  let ?h = "fold stop_flag (sched p) h"
  have kept: "?h a \<noteq> None" if "h a \<noteq> None" for a
  proof -
    from that obtain m where "h a = Some m" by blast
    from fold_stop_flag_frame [of h a m "sched p", OF this] show ?thesis by auto
  qed
  with "1.prems" have "\<forall>j. 0 \<le> j \<and> j < num \<longrightarrow> j < length ml \<and> (\<exists>a. ml ! j = Some a \<and> ?h a \<noteq> None)"
    by blast
  from count_steps_success [OF this, of stp "tr @ ?pulse"] obtain stp1 h1 tr1 where
    body: "count_steps ml 0 num stp ?h (tr @ ?pulse) = Inr (stp1, h1, tr1)"
    by (metis prod_cases3)
  show ?case
  proof (cases "req - 1 \<noteq> 0 \<and> stp1 = 0")
    case False
    with body show ?thesis
      by (subst pulse_loop.simps) auto
  next
    case True
    have "j < length ml \<and> (\<exists>a. ml ! j = Some a \<and> h1 a \<noteq> None)" if "j < num" for j
    proof -
      from "1.prems" that obtain a m where a: "j < length ml" "ml ! j = Some a" "h a = Some m"
        by blast
      from pulse_body_frame [OF body a(3)] a show ?thesis by auto
    qed
    then have "\<exists>res. pulse_loop sched ml num hp (Suc p) (req - 1) stp1 h1 tr1 = Inr res"
      by (intro "1.IH" [OF body refl refl True]) blast
    with body True show ?thesis
      by (subst pulse_loop.simps) simp
  qed
qed

lemma pulse_loop_exact:
  "pulse_loop sched ml num hp p req stp h tr = Inr (left, h', tr') \<Longrightarrow> stp = 0 \<Longrightarrow> req \<noteq> 0 \<Longrightarrow>
   (\<forall>j < num. \<exists>a m. ml ! j = Some a \<and> h a = Some m \<and> stop m = 0 \<and> (\<forall>q. a \<notin> set (sched q)))
   \<Longrightarrow> pulses tr' = pulses tr + unat req \<and> left = 0"
proof (induction sched ml num hp p req stp h tr rule: pulse_loop.induct)
  case (1 sched ml num hp p req stp h tr)
  let ?pulse = "[BulkHigh, Sleep hp, BulkLow, Sleep hp]"
  let ?h = "fold stop_flag (sched p) h"
  from "1.prems"(1) obtain stp1 h1 tr1 where
    body: "count_steps ml 0 num stp ?h (tr @ ?pulse) = Inr (stp1, h1, tr1)"
    by (subst (asm) pulse_loop.simps) (auto split: sum.splits)
  from count_steps_trace [OF body] obtain e1 where
    tr1: "tr1 = (tr @ ?pulse) @ e1" "pulses e1 = 0" by blast
  then have p1: "pulses tr1 = pulses tr + 1"
    by (simp only: pulses_append pulses_one)
  have quiet: "\<exists>a m. ml ! j = Some a \<and> ?h a = Some m \<and> stop m = 0" if "j < num" for j
  proof -
    from "1.prems"(4) that obtain a m where
      a: "ml ! j = Some a" "h a = Some m" "stop m = 0" "a \<notin> set (sched p)" by blast
    from fold_stop_flag_frame [of h a m "sched p", OF a(2)] a show ?thesis by auto
  qed
  from count_steps_stop [OF body] "1.prems"(2) quiet have stp1: "stp1 = 0"
    by simp
  have still: "\<exists>a m. ml ! j = Some a \<and> h1 a = Some m \<and> stop m = 0 \<and> (\<forall>q. a \<notin> set (sched q))"
    if "j < num" for j
  proof -
    from "1.prems"(4) that obtain a m where
      a: "ml ! j = Some a" "h a = Some m" "stop m = 0" "\<forall>q. a \<notin> set (sched q)" by blast
    from pulse_body_frame [OF body a(2)] a show ?thesis by auto
  qed
  from "1.prems"(3) have dec: "unat (req - 1) = unat req - 1" "0 < unat req"
    by (simp_all add: unat_minus_one unat_gt_0)
  show ?case
  proof (cases "req - 1 \<noteq> 0")
    case False
    with "1.prems"(1) body have "left = req - 1 \<and> tr' = tr1"
      by (subst (asm) pulse_loop.simps) (simp split: if_splits)
    with False p1 dec show ?thesis by simp
  next
    case True
    with "1.prems"(1) body stp1
    have run: "pulse_loop sched ml num hp (Suc p) (req - 1) stp1 h1 tr1 = Inr (left, h', tr')"
      by (subst (asm) pulse_loop.simps) simp
    from True stp1 have cont: "req - 1 \<noteq> 0 \<and> stp1 = 0" by simp
    from still have "\<forall>j < num. \<exists>a m. ml ! j = Some a \<and> h1 a = Some m \<and> stop m = 0 \<and> (\<forall>q. a \<notin> set (sched q))"
      by blast
    from "1.IH" [OF body refl refl cont run stp1 True this] p1 dec show ?thesis
      by simp
  qed
qed

text \<open>A motor whose stop flag is already set stops the motion after the first pulse.\<close>

lemma fold_stop_flag_sticky:
  "h a = Some m \<Longrightarrow> stop m \<noteq> 0 \<Longrightarrow> stepper_is_busy m \<Longrightarrow>
     \<exists>x. fold stop_flag as h a = Some (m\<lparr>stop := x\<rparr>) \<and> x \<noteq> 0"
proof (induction as arbitrary: h m)
  case Nil
  then show ?case by (intro exI [of _ "stop m"]) simp
next
  case (Cons b as)
  show ?case
  proof (cases "a = b")
    case True
    let ?m = "m\<lparr>stop := 1\<rparr>"
    from True Cons.prems have "stop_flag b h a = Some ?m" "stop ?m \<noteq> 0" "stepper_is_busy ?m"
      by (simp_all add: stop_flag_def stepper_is_busy_def)
    from Cons.IH [of "stop_flag b h" ?m, OF this] show ?thesis by auto
  next
    case False
    with Cons.prems have "stop_flag b h a = Some m"
      by (simp add: stop_flag_def split: option.splits)
    from Cons.IH [of "stop_flag b h" m, OF this Cons.prems(2,3)] show ?thesis by auto
  qed
qed

lemma pulse_loop_stopped:
  assumes "pulse_loop sched ml num hp p req stp h tr = Inr (left, h', tr')"
    and "j < num" and "ml ! j = Some a" and "h a = Some m" and "stop m \<noteq> 0" and "stepper_is_busy m"
  shows "pulses tr' = pulses tr + 1"
proof -
  let ?pulse = "[BulkHigh, Sleep hp, BulkLow, Sleep hp]"
  let ?h = "fold stop_flag (sched p) h"
  from assms(1) obtain stp1 h1 tr1 where
    body: "count_steps ml 0 num stp ?h (tr @ ?pulse) = Inr (stp1, h1, tr1)"
    by (subst (asm) pulse_loop.simps) (auto split: sum.splits)
  from count_steps_trace [OF body] obtain e1 where
    tr1: "tr1 = (tr @ ?pulse) @ e1" "pulses e1 = 0" by blast
  then have p1: "pulses tr1 = pulses tr + 1"
    by (simp only: pulses_append pulses_one)
  from fold_stop_flag_sticky [of h a m "sched p", OF assms(4,5,6)] obtain x where
    x: "?h a = Some (m\<lparr>stop := x\<rparr>)" "x \<noteq> 0" by blast
  have "stp1 \<noteq> 0"
  proof
    assume "stp1 = 0"
    with count_steps_stop [OF body] assms(2) have
      "\<exists>b k. ml ! j = Some b \<and> ?h b = Some k \<and> stop k = 0" by simp
    with assms(3) x show False by simp
  qed
  with assms(1) body have "tr' = tr1"
    by (subst (asm) pulse_loop.simps) (simp split: if_splits)
  with p1 show ?thesis by simp
qed

lemma sint_add_of_nat:
  fixes w :: "32 word"
  assumes "sint w + int k < 2 ^ 31"
  shows "sint (w + of_nat k) = sint w + int k"
proof -
  have "w + of_nat k = word_of_int (sint w + int k)" by simp
  then have "sint (w + of_nat k) = signed_take_bit (LENGTH(32) - 1) (sint w + int k)"
    by (simp only: sint_sbintrunc')
  also have "\<dots> = sint w + int k"
    using assms sint_ge [of w] by (intro signed_take_bit_int_eq_self) simp_all
  finally show ?thesis .
qed

lemma sint_diff_of_nat:
  fixes w :: "32 word"
  assumes "- (2 ^ 31) \<le> sint w - int k"
  shows "sint (w - of_nat k) = sint w - int k"
proof -
  have "w - of_nat k = word_of_int (sint w - int k)" by simp
  then have "sint (w - of_nat k) = signed_take_bit (LENGTH(32) - 1) (sint w - int k)"
    by (simp only: sint_sbintrunc')
  also have "\<dots> = sint w - int k"
    using assms sint_lt [of w] by (intro signed_take_bit_int_eq_self) simp_all
  finally show ?thesis .
qed

lemma sint_step_delta:
  fixes m m' :: Stepper
  assumes "steps m' = steps m + step_delta m * of_nat k"
    and "- (2 ^ 31) \<le> sint (steps m) - int k" and "sint (steps m) + int k < 2 ^ 31"
  shows "\<bar>sint (steps m') - sint (steps m)\<bar> = int k"
proof (cases "curr_direction m = pos_direction m")
  case True
  with assms(1) have "steps m' = steps m + of_nat k" by (simp add: step_delta_def)
  with sint_add_of_nat [OF assms(3)] show ?thesis by simp
next
  case False
  with assms(1) have "steps m' = steps m - of_nat k" by (simp add: step_delta_def)
  with sint_diff_of_nat [OF assms(2)] show ?thesis by simp
qed

lemma count_list_distinct:
  "distinct xs \<Longrightarrow> x \<in> set xs \<Longrightarrow> count_list xs x = 1"
  by (induction xs) auto

lemma participant_once:
  assumes "distinct (take n ms)" and "n \<le> length ms" and "n \<le> length ml"
    and "\<forall>i < n. ml ! i = ms ! i" and "j < n" and "ms ! j = Some a"
  shows "count_list (take n ml) (Some a) = 1"
proof -
  from assms(2,3,4) have eq: "take n ml = take n ms"
    by (intro nth_take_lemma) simp_all
  from assms(2,5,6) have "Some a \<in> set (take n ms)"
    by (metis in_set_conv_nth length_take min.absorb2 nth_take)
  with assms(1) eq show ?thesis by (simp add: count_list_distinct)
qed

subsection \<open>From an accepted request to the motion\<close>

lemma step_multiple_accepted:
  assumes "stepper_step_multiple e (Some ms) n_steps count s = Inr (0, s1)"
  shows "\<exists>a0 m1 r rq.
           ms ! 0 = Some a0 \<and> steppers s1 a0 = Some m1 \<and> current_req m1 = Some r \<and>
           requests s1 r = Some rq \<and> req_count rq = count \<and> req_steps rq = n_steps \<and>
           n_steps \<noteq> 0 \<and> 0 < unat count \<and> unat count \<le> length ms \<and>
           unat count \<le> length (req_motor_list rq) \<and>
           (\<forall>j < unat count. req_motor_list rq ! j = ms ! j \<and>
              (\<exists>a m. ms ! j = Some a \<and> steppers s1 a = Some m \<and> stepper_is_busy m))"
proof -
  from assms have n0: "n_steps \<noteq> 0" and c0: "count \<noteq> 0"
    by (auto simp: stepper_step_multiple_def split: if_splits)
  with assms obtain a0 m0 where d: "deref (steppers s) ms 0 = Inr (a0, m0)"
    by (auto simp: stepper_step_multiple_def split: if_splits sum.splits)
  with assms n0 c0 obtain r s' where
    c: "stepper_create_new_request e ms count n_steps s = Inr (Some r, s')"
    by (auto simp: stepper_step_multiple_def split: if_splits sum.splits option.splits)
  with assms n0 c0 d obtain m where m: "steppers s' a0 = Some m"
    and s1: "s1 = s'\<lparr>steppers := (steppers s')(a0 \<mapsto> m\<lparr>req_available := 1\<rparr>),
                    trace := trace s' @ [SignalReq a0]\<rparr>"
    by (auto simp: stepper_step_multiple_def split: if_splits option.splits)
  from create_new_request_Some [OF c] obtain ml bulk mx h' where
    cp: "copy_motors ms 0 (unat count) (replicate MOTOR_LIST_SIZE_MAX None) = Inr (Some ml)"
    and l: "link_motors ms 0 (unat count) r mx (steppers s) = Inr h'"
    and s': "s' = s\<lparr>steppers := h',
                  requests := (requests s)(r \<mapsto>
                    \<lparr>req_motor_list = ml, req_motor_waiting = None, req_pin_bulk = bulk,
                     req_count = count, req_steps = n_steps\<rparr>)\<rparr>"
    by blast
  from c0 have pos: "0 < unat count" by (simp add: unat_gt_0)
  from copy_motors_result [OF cp] pos have
    len: "unat count \<le> length ms" "unat count \<le> length ml"
    and same: "\<forall>j < unat count. ml ! j = ms ! j"
    by simp_all
  have linked: "\<exists>a k. ms ! j = Some a \<and> steppers s1 a = Some k \<and>
      current_req k = Some r \<and> stepper_is_busy k" if "j < unat count" for j
  proof -
    from link_motors_linked [OF l _ that] obtain a k where
      a: "ms ! j = Some a" "h' a = Some k" "current_req k = Some r" "shared_mutex k = Some mx"
      by auto
    have "\<exists>k'. steppers s1 a = Some k' \<and> current_req k' = Some r \<and> stepper_is_busy k'"
    proof (cases "a = a0")
      case True
      with a m s' have "m = k" by simp
      with True s1 a have "steppers s1 a = Some (k\<lparr>req_available := 1\<rparr>)" by simp
      with a show ?thesis by (simp add: stepper_is_busy_def)
    next
      case False
      with s1 s' a have "steppers s1 a = Some k" by simp
      with a show ?thesis by (simp add: stepper_is_busy_def)
    qed
    with a(1) show ?thesis by blast
  qed
  from d have first: "ms ! 0 = Some a0" by (simp add: deref_Inr)
  from linked [OF pos] first obtain m1 where
    m1: "steppers s1 a0 = Some m1" "current_req m1 = Some r" by auto
  from s1 s' have rq: "requests s1 r = Some \<lparr>req_motor_list = ml, req_motor_waiting = None,
      req_pin_bulk = bulk, req_count = count, req_steps = n_steps\<rparr>"
    by simp
  let ?rq = "\<lparr>req_motor_list = ml, req_motor_waiting = None,
      req_pin_bulk = bulk, req_count = count, req_steps = n_steps\<rparr>"
  have slots: "\<forall>j < unat count. req_motor_list ?rq ! j = ms ! j \<and>
      (\<exists>a m. ms ! j = Some a \<and> steppers s1 a = Some m \<and> stepper_is_busy m)"
  proof (intro allI impI conjI)
    fix j assume j: "j < unat count"
    with same show "req_motor_list ?rq ! j = ms ! j" by simp
    from linked [OF j] show "\<exists>a m. ms ! j = Some a \<and> steppers s1 a = Some m \<and> stepper_is_busy m"
      by blast
  qed
  have "ms ! 0 = Some a0 \<and> steppers s1 a0 = Some m1 \<and> current_req m1 = Some r \<and>
           requests s1 r = Some ?rq \<and> req_count ?rq = count \<and> req_steps ?rq = n_steps \<and>
           n_steps \<noteq> 0 \<and> 0 < unat count \<and> unat count \<le> length ms \<and>
           unat count \<le> length (req_motor_list ?rq)"
    using first m1 rq n0 pos len by simp
  with slots show ?thesis by blast
qed

lemma motion_after_accept:
  assumes acc: "stepper_step_multiple e (Some ms) n_steps count s = Inr (0, s1)"
    and first: "ms ! 0 = Some a0"
  shows "\<exists>s2 k ext hp.
           motor_pulser_motion sched a0 s1 = Inr s2 \<and> 1 \<le> k \<and> k \<le> unat n_steps \<and>
           unat count \<le> length ms \<and>
           trace s2 = trace s1 @ [BulkHigh, Sleep hp, BulkLow, Sleep hp] @ ext \<and>
           pulses (trace s2) = pulses (trace s1) + k \<and>
           (\<forall>a m. steppers s1 a = Some m \<longrightarrow>
              (\<exists>m'. steppers s2 a = Some m' \<and>
                 steps m' = steps m + step_delta m * of_nat (k * count_list (take (unat count) ms) (Some a)))) \<and>
           ((\<forall>i < unat count. \<exists>b m. ms ! i = Some b \<and> steppers s1 b = Some m \<and> stop m = 0 \<and>
                (\<forall>q. b \<notin> set (sched q))) \<longrightarrow> k = unat n_steps) \<and>
           ((\<exists>i < unat count. \<exists>b m. ms ! i = Some b \<and> steppers s1 b = Some m \<and> stop m \<noteq> 0)
              \<longrightarrow> k = 1)"
proof -
  from step_multiple_accepted [OF acc] first obtain m1 r rq where
    m1: "steppers s1 a0 = Some m1" "current_req m1 = Some r"
    and rq: "requests s1 r = Some rq" "req_count rq = count" "req_steps rq = n_steps"
    and n0: "n_steps \<noteq> 0" and len: "unat count \<le> length ms" "unat count \<le> length (req_motor_list rq)"
    and slots: "\<forall>j < unat count. req_motor_list rq ! j = ms ! j \<and>
              (\<exists>a m. ms ! j = Some a \<and> steppers s1 a = Some m \<and> stepper_is_busy m)"
    by auto
  define ml where "ml = req_motor_list rq"
  define num where "num = unat count"
  define hp where "hp = half_period m1"
  define h0 where "h0 = (steppers s1)(a0 \<mapsto> m1\<lparr>req_available := 0\<rparr>)"
  have start: "\<exists>m0. h0 a = Some m0 \<and> steps m0 = steps m \<and> step_delta m0 = step_delta m \<and>
      stop m0 = stop m \<and> stepper_is_busy m0 = stepper_is_busy m" if "steppers s1 a = Some m" for a m
  proof (cases "a = a0")
    case True
    with that m1 have "h0 a = Some (m\<lparr>req_available := 0\<rparr>)" by (simp add: h0_def)
    then show ?thesis by (simp add: step_delta_def stepper_is_busy_def)
  next
    case False
    with that have "h0 a = Some m" by (simp add: h0_def)
    then show ?thesis by simp
  qed
  have valid: "\<forall>j < num. j < length ml \<and> (\<exists>a. ml ! j = Some a \<and> h0 a \<noteq> None)"
  proof (intro allI impI)
    fix j assume j: "j < num"
    with slots obtain a m where a: "ml ! j = Some a" "steppers s1 a = Some m"
      unfolding ml_def num_def by force
    from start [OF a(2)] a(1) j len(2) show "j < length ml \<and> (\<exists>a. ml ! j = Some a \<and> h0 a \<noteq> None)"
      unfolding ml_def num_def by auto
  qed
  from pulse_loop_success [OF valid, of sched hp 0 n_steps 0 "trace s1"] obtain left h' tr' where
    run: "pulse_loop sched ml num hp 0 n_steps 0 h0 (trace s1) = Inr (left, h', tr')"
    by (metis prod_cases3)
  let ?s2 = "s1\<lparr>steppers := h', requests := (requests s1)(r \<mapsto> rq\<lparr>req_steps := left\<rparr>), trace := tr'\<rparr>"
  from m1 rq run have motion: "motor_pulser_motion sched a0 s1 = Inr ?s2"
    by (simp add: motor_pulser_motion_def ml_def num_def hp_def h0_def)
  from pulse_loop_steps [OF run] n0 obtain k ext where
    k: "1 \<le> k" "k \<le> unat n_steps"
      "tr' = trace s1 @ [BulkHigh, Sleep hp, BulkLow, Sleep hp] @ ext"
      "pulses tr' = pulses (trace s1) + k"
    and st: "\<forall>a m. h0 a = Some m \<longrightarrow>
           (\<exists>m'. h' a = Some m' \<and>
              steps m' = steps m + step_delta m * of_nat (k * count_list (take num ml) (Some a)))"
    by blast
  from len slots have tk: "take num ml = take num ms"
    unfolding ml_def num_def by (intro nth_take_lemma) simp_all
  have steps: "\<exists>m'. steppers ?s2 a = Some m' \<and>
      steps m' = steps m + step_delta m * of_nat (k * count_list (take (unat count) ms) (Some a))"
    if "steppers s1 a = Some m" for a m
  proof -
    from start [OF that] obtain m0 where
      m0: "h0 a = Some m0" "steps m0 = steps m" "step_delta m0 = step_delta m" by blast
    from st m0(1) obtain m' where "h' a = Some m'"
      "steps m' = steps m0 + step_delta m0 * of_nat (k * count_list (take num ml) (Some a))"
      by blast
    with m0 tk show ?thesis by (simp add: num_def)
  qed
  have quiet: "k = unat n_steps"
    if q: "\<forall>i < unat count. \<exists>b m. ms ! i = Some b \<and> steppers s1 b = Some m \<and> stop m = 0 \<and>
                (\<forall>q. b \<notin> set (sched q))"
  proof -
    have "\<forall>j < num. \<exists>a m. ml ! j = Some a \<and> h0 a = Some m \<and> stop m = 0 \<and> (\<forall>q. a \<notin> set (sched q))"
    proof (intro allI impI)
      fix j assume j: "j < num"
      with q obtain b m where b: "ms ! j = Some b" "steppers s1 b = Some m" "stop m = 0"
        "\<forall>q. b \<notin> set (sched q)" unfolding num_def by blast
      from j slots b(1) have "ml ! j = Some b" unfolding ml_def num_def by simp
      with start [OF b(2)] b(3,4)
      show "\<exists>a m. ml ! j = Some a \<and> h0 a = Some m \<and> stop m = 0 \<and> (\<forall>q. a \<notin> set (sched q))"
        by auto
    qed
    from pulse_loop_exact [OF run refl n0 this] k(4) show ?thesis by simp
  qed
  have stale: "k = 1"
    if q: "\<exists>i < unat count. \<exists>b m. ms ! i = Some b \<and> steppers s1 b = Some m \<and> stop m \<noteq> 0"
  proof -
    from q obtain i b m where b: "i < num" "ms ! i = Some b" "steppers s1 b = Some m" "stop m \<noteq> 0"
      unfolding num_def by blast
    from b(1) slots b(2) have mlb: "ml ! i = Some b" unfolding ml_def num_def by simp
    from b(1) slots b(2,3) have "stepper_is_busy m" unfolding num_def by force
    with start [OF b(3)] b(4) obtain m0 where
      m0: "h0 b = Some m0" "stop m0 \<noteq> 0" "stepper_is_busy m0" by auto
    from pulse_loop_stopped [OF run b(1) mlb m0] k(4) show ?thesis by simp
  qed
  have "motor_pulser_motion sched a0 s1 = Inr ?s2 \<and> 1 \<le> k \<and> k \<le> unat n_steps \<and>
           unat count \<le> length ms \<and>
           trace ?s2 = trace s1 @ [BulkHigh, Sleep hp, BulkLow, Sleep hp] @ ext \<and>
           pulses (trace ?s2) = pulses (trace s1) + k"
    using motion k len by simp
  with steps quiet stale show ?thesis by blast
qed

lemma replicate_8: "replicate 8 x = [x, x, x, x, x, x, x, x]"
  by (simp add: numeral_eq_Suc)

lemma step_multiple_at_rest:
  "stepper_step_multiple all_granted (Some [Some 1, Some 2]) 3 2 at_rest = Inr (0, moving)"
  by (simp add: stepper_step_multiple_def stepper_create_new_request_def MOTOR_LIST_SIZE_MAX_def
      copy_motors.simps bulk_add.simps link_motors.simps deref_def at_rest_def two_idle_def
      all_granted_def stepper_is_busy_def motor_A_def motor_B_def moving_def replicate_8
      fun_upd_twist)

text \<open>
  C1. Let \<open>stepper_step_multiple\<close> accept a request of \<open>n_steps\<close> steps for the motors
  \<open>ms\<close> (pairwise different), and let \<open>a\<close> be one of them, its accumulator far enough
  from the ends of the 32-bit range for \<open>n_steps\<close> steps. Then the pulser's motion
  returns, the accumulator of \<open>a\<close> has changed in magnitude by the number of pulses
  emitted, which is at most \<open>n_steps\<close>, and by exactly \<open>n_steps\<close> when no stop flag of a
  participating motor is set before or during the motion.
\<close>

theorem pulser_motion_accumulator:
  assumes "stepper_step_multiple e (Some ms) n_steps count s = Inr (0, s1)"
    and "ms ! 0 = Some a0"
    and "distinct (take (unat count) ms)"
    and "j < unat count" and "ms ! j = Some a" and "steppers s1 a = Some m"
    and "- (2 ^ 31) \<le> sint (steps m) - int (unat n_steps)"
    and "sint (steps m) + int (unat n_steps) < 2 ^ 31"
  shows "\<exists>s2 m2. motor_pulser_motion sched a0 s1 = Inr s2 \<and> steppers s2 a = Some m2 \<and>
           \<bar>sint (steps m2) - sint (steps m)\<bar> = int (pulses (trace s2)) - int (pulses (trace s1)) \<and>
           \<bar>sint (steps m2) - sint (steps m)\<bar> \<le> int (unat n_steps) \<and>
           ((\<forall>i < unat count. \<exists>b k. ms ! i = Some b \<and> steppers s1 b = Some k \<and> stop k = 0 \<and>
                (\<forall>q. b \<notin> set (sched q)))
            \<longrightarrow> \<bar>sint (steps m2) - sint (steps m)\<bar> = int (unat n_steps))"
proof -
  from motion_after_accept [OF assms(1,2), of sched] obtain s2 k ext hp where
    motion: "motor_pulser_motion sched a0 s1 = Inr s2"
    and k: "1 \<le> k" "k \<le> unat n_steps" "pulses (trace s2) = pulses (trace s1) + k"
    and len: "unat count \<le> length ms"
    and st: "\<forall>a m. steppers s1 a = Some m \<longrightarrow>
              (\<exists>m'. steppers s2 a = Some m' \<and>
                 steps m' = steps m + step_delta m * of_nat (k * count_list (take (unat count) ms) (Some a)))"
    and quiet: "(\<forall>i < unat count. \<exists>b m. ms ! i = Some b \<and> steppers s1 b = Some m \<and> stop m = 0 \<and>
                (\<forall>q. b \<notin> set (sched q))) \<longrightarrow> k = unat n_steps"
    by blast
  from participant_once [OF assms(3) len len _ assms(4,5)]
  have once: "count_list (take (unat count) ms) (Some a) = 1" by simp
  from st assms(6) once obtain m2 where
    m2: "steppers s2 a = Some m2" "steps m2 = steps m + step_delta m * of_nat k"
    by force
  from k(2) have ik: "int k \<le> int (unat n_steps)" by (rule of_nat_mono)
  with assms(7,8) have "- (2 ^ 31) \<le> sint (steps m) - int k" "sint (steps m) + int k < 2 ^ 31"
    by linarith+
  from sint_step_delta [OF m2(2) this] have d: "\<bar>sint (steps m2) - sint (steps m)\<bar> = int k" .
  from d k(3) have "\<bar>sint (steps m2) - sint (steps m)\<bar> = int (pulses (trace s2)) - int (pulses (trace s1))"
    by simp
  moreover from d ik have "\<bar>sint (steps m2) - sint (steps m)\<bar> \<le> int (unat n_steps)"
    by simp
  moreover from d quiet have "(\<forall>i < unat count. \<exists>b k. ms ! i = Some b \<and> steppers s1 b = Some k \<and> stop k = 0 \<and>
                (\<forall>q. b \<notin> set (sched q)))
            \<longrightarrow> \<bar>sint (steps m2) - sint (steps m)\<bar> = int (unat n_steps)"
    by simp
  ultimately show ?thesis using motion m2(1)
    by (intro exI [of _ s2] exI [of _ m2] conjI)
qed

theorem pulser_motion_accumulator_witness:
  "stepper_step_multiple all_granted (Some [Some 1, Some 2]) 3 2 at_rest = Inr (0, moving) \<and>
   distinct (take (unat (2 :: 32 word)) [Some (1 :: nat), Some 2]) \<and>
   (\<exists>s2 m2. motor_pulser_motion (\<lambda>q. []) 1 moving = Inr s2 \<and> steppers s2 2 = Some m2 \<and>
       \<bar>sint (steps m2) - sint (steps (motor_B\<lparr>current_req := Some 10, shared_mutex := Some 11\<rparr>))\<bar> = 3 \<and>
       int (pulses (trace s2)) - int (pulses (trace moving)) = 3)"
proof -
  let ?ms = "[Some (1 :: nat), Some 2]"
  let ?B = "motor_B\<lparr>current_req := Some 10, shared_mutex := Some 11\<rparr>"
  have first: "?ms ! 0 = Some 1" by simp
  have dist: "distinct (take (unat (2 :: 32 word)) ?ms)" by simp
  have j: "(1 :: nat) < unat (2 :: 32 word)" by simp
  have slot: "?ms ! 1 = Some 2" by simp
  have B: "steppers moving 2 = Some ?B" by (simp add: moving_def)
  have lo: "- (2 ^ 31) \<le> sint (steps ?B) - int (unat (3 :: 32 word))"
    and hi: "sint (steps ?B) + int (unat (3 :: 32 word)) < 2 ^ 31"
    by (simp_all add: motor_B_def)
  have quiet: "\<forall>i < unat (2 :: 32 word). \<exists>b k. ?ms ! i = Some b \<and> steppers moving b = Some k \<and>
      stop k = 0 \<and> (\<forall>q. b \<notin> set ((\<lambda>q. []) q))"
  proof (intro allI impI)
    fix i :: nat
    assume "i < unat (2 :: 32 word)"
    then have "i = 0 \<or> i = 1" by auto
    then show "\<exists>b k. ?ms ! i = Some b \<and> steppers moving b = Some k \<and>
      stop k = 0 \<and> (\<forall>q. b \<notin> set ((\<lambda>q. []) q))"
      by (elim disjE) (simp_all add: moving_def motor_A_def motor_B_def)
  qed
  from pulser_motion_accumulator [OF step_multiple_at_rest first dist j slot B lo hi, of "\<lambda>q. []"]
  obtain s2 m2 where r: "motor_pulser_motion (\<lambda>q. []) 1 moving = Inr s2" "steppers s2 2 = Some m2"
    "\<bar>sint (steps m2) - sint (steps ?B)\<bar> = int (pulses (trace s2)) - int (pulses (trace moving))"
    "(\<forall>i < unat (2 :: 32 word). \<exists>b k. ?ms ! i = Some b \<and> steppers moving b = Some k \<and> stop k = 0 \<and>
                (\<forall>q. b \<notin> set ((\<lambda>q. []) q)))
            \<longrightarrow> \<bar>sint (steps m2) - sint (steps ?B)\<bar> = int (unat (3 :: 32 word))"
    by blast
  from r(4) quiet have "\<bar>sint (steps m2) - sint (steps ?B)\<bar> = 3" by simp
  with r(1,2,3) have "\<exists>s2 m2. motor_pulser_motion (\<lambda>q. []) 1 moving = Inr s2 \<and> steppers s2 2 = Some m2 \<and>
       \<bar>sint (steps m2) - sint (steps ?B)\<bar> = 3 \<and>
       int (pulses (trace s2)) - int (pulses (trace moving)) = 3"
    by (intro exI [of _ s2] exI [of _ m2]) simp
  with step_multiple_at_rest dist show ?thesis by (intro conjI)
qed

lemma step_multiple_stale:
  "stepper_step_multiple all_granted (Some [Some 1, Some 2]) 3 2 stale = Inr (0, moving_stale)"
  by (simp add: stepper_step_multiple_def stepper_create_new_request_def MOTOR_LIST_SIZE_MAX_def
      copy_motors.simps bulk_add.simps link_motors.simps deref_def stale_def
      all_granted_def stepper_is_busy_def motor_A_def motor_B_def moving_stale_def replicate_8
      fun_upd_twist)

text \<open>
  C10. Let \<open>stepper_step_multiple\<close> accept a request (so \<open>n_steps\<close> is at least 1) for
  pairwise different motors, and let \<open>a\<close> be one of them. The first events of the motion
  are one full pulse (bulk high, sleep, bulk low, sleep); the stop flags are read after
  it. So at least one pulse is emitted and the accumulator of \<open>a\<close> has moved, and when a
  stop flag of \<open>a\<close> is already set at the start it has moved by exactly one microstep.
\<close>

theorem pulser_first_pulse:
  assumes "stepper_step_multiple e (Some ms) n_steps count s = Inr (0, s1)"
    and "ms ! 0 = Some a0"
    and "distinct (take (unat count) ms)"
    and "j < unat count" and "ms ! j = Some a" and "steppers s1 a = Some m"
  shows "\<exists>s2 m2 k hp ext. motor_pulser_motion sched a0 s1 = Inr s2 \<and>
           trace s2 = trace s1 @ [BulkHigh, Sleep hp, BulkLow, Sleep hp] @ ext \<and>
           1 \<le> k \<and> pulses (trace s2) = pulses (trace s1) + k \<and>
           steppers s2 a = Some m2 \<and> steps m2 = steps m + step_delta m * of_nat k \<and>
           steps m2 \<noteq> steps m \<and>
           (stop m \<noteq> 0 \<longrightarrow> k = 1)"
proof -
  from motion_after_accept [OF assms(1,2), of sched] obtain s2 k ext hp where
    motion: "motor_pulser_motion sched a0 s1 = Inr s2"
    and k: "1 \<le> k" "k \<le> unat n_steps" "pulses (trace s2) = pulses (trace s1) + k"
    and tr: "trace s2 = trace s1 @ [BulkHigh, Sleep hp, BulkLow, Sleep hp] @ ext"
    and len: "unat count \<le> length ms"
    and st: "\<forall>a m. steppers s1 a = Some m \<longrightarrow>
              (\<exists>m'. steppers s2 a = Some m' \<and>
                 steps m' = steps m + step_delta m * of_nat (k * count_list (take (unat count) ms) (Some a)))"
    and stale: "(\<exists>i < unat count. \<exists>b m. ms ! i = Some b \<and> steppers s1 b = Some m \<and> stop m \<noteq> 0)
              \<longrightarrow> k = 1"
    by blast
  from participant_once [OF assms(3) len len _ assms(4,5)]
  have once: "count_list (take (unat count) ms) (Some a) = 1" by simp
  from st assms(6) once obtain m2 where
    m2: "steppers s2 a = Some m2" "steps m2 = steps m + step_delta m * of_nat k"
    by force
  have "k < 2 ^ LENGTH(32)"
    using k(2) unsigned_less [of n_steps, where 'a = nat] by simp
  with k(1) have nz: "(of_nat k :: 32 word) \<noteq> 0"
    by (intro of_nat_neq_0) simp_all
  with m2(2) have moved: "steps m2 \<noteq> steps m"
    by (simp add: step_delta_def)
  from stale assms(4,5,6) have one: "stop m \<noteq> 0 \<longrightarrow> k = 1" by blast
  from motion tr k(1,3) m2 moved one show ?thesis
    by (intro exI [of _ s2] exI [of _ m2] exI [of _ k] exI [of _ hp] exI [of _ ext] conjI)
qed

theorem pulser_first_pulse_witness:
  "stepper_step_multiple all_granted (Some [Some 1, Some 2]) 3 2 stale = Inr (0, moving_stale) \<and>
   map_option stop (steppers moving_stale 2) = Some 1 \<and>
   (\<exists>s2 m2 hp ext. motor_pulser_motion (\<lambda>q. []) 1 moving_stale = Inr s2 \<and>
       trace s2 = trace moving_stale @ [BulkHigh, Sleep hp, BulkLow, Sleep hp] @ ext \<and>
       pulses (trace s2) = pulses (trace moving_stale) + 1 \<and>
       steppers s2 2 = Some m2 \<and> steps m2 = 1)"
proof -
  let ?ms = "[Some (1 :: nat), Some 2]"
  let ?B = "motor_B\<lparr>current_req := Some 10, shared_mutex := Some 11, stop := 1\<rparr>"
  have first: "?ms ! 0 = Some 1" by simp
  have dist: "distinct (take (unat (2 :: 32 word)) ?ms)" by simp
  have j: "(1 :: nat) < unat (2 :: 32 word)" by simp
  have slot: "?ms ! 1 = Some 2" by simp
  have B: "steppers moving_stale 2 = Some ?B" by (simp add: moving_stale_def)
  have flag: "stop ?B \<noteq> 0" by simp
  have delta: "steps ?B + step_delta ?B * of_nat 1 = 1"
    by (simp add: motor_B_def step_delta_def)
  from pulser_first_pulse [OF step_multiple_stale first dist j slot B, of "\<lambda>q. []"] flag
  obtain s2 m2 hp ext where "motor_pulser_motion (\<lambda>q. []) 1 moving_stale = Inr s2"
    "trace s2 = trace moving_stale @ [BulkHigh, Sleep hp, BulkLow, Sleep hp] @ ext"
    "pulses (trace s2) = pulses (trace moving_stale) + 1"
    "steppers s2 2 = Some m2" "steps m2 = steps ?B + step_delta ?B * of_nat 1"
    by auto
  with delta have "\<exists>s2 m2 hp ext. motor_pulser_motion (\<lambda>q. []) 1 moving_stale = Inr s2 \<and>
       trace s2 = trace moving_stale @ [BulkHigh, Sleep hp, BulkLow, Sleep hp] @ ext \<and>
       pulses (trace s2) = pulses (trace moving_stale) + 1 \<and>
       steppers s2 2 = Some m2 \<and> steps m2 = 1"
    by (intro exI [of _ s2] exI [of _ m2] exI [of _ hp] exI [of _ ext]) simp
  moreover from B have "map_option stop (steppers moving_stale 2) = Some 1" by simp
  ultimately show ?thesis using step_multiple_stale by (intro conjI)
qed

subsection \<open>Millimetres to microsteps\<close>

lemma to_unsigned_nonneg:
  assumes "0 \<le> x" and "x < 2 ^ 32"
  shows "\<exists>w. to_unsigned x = Inr w \<and> uint w = \<lfloor>x\<rfloor>"
proof -
  from assms(1) have lo: "0 \<le> \<lfloor>x\<rfloor>" by simp
  from assms(2) have hi: "\<lfloor>x\<rfloor> < 2 ^ 32"
    by (simp add: floor_less_iff)
  from lo hi have "uint (word_of_int \<lfloor>x\<rfloor> :: 32 word) = \<lfloor>x\<rfloor>"
    by (simp add: uint_word_of_int take_bit_int_eq_self)
  with lo hi assms(1) show ?thesis
    by (simp add: to_unsigned_def)
qed

lemma round_floor_frac:
  fixes x :: rat
  shows "round x = \<lfloor>x\<rfloor> + (if 1 / 2 \<le> frac x then 1 else 0)"
proof -
  have lo: "of_int \<lfloor>x\<rfloor> \<le> x" by (rule of_int_floor_le)
  have hi: "x < of_int \<lfloor>x\<rfloor> + 1" using floor_correct [of x] by simp
  show ?thesis
  proof (cases "1 / 2 \<le> frac x")
    case True
    then have "1 / 2 \<le> x - of_int \<lfloor>x\<rfloor>" by (simp only: frac_def)
    moreover have "of_int (\<lfloor>x\<rfloor> + 1) = (of_int \<lfloor>x\<rfloor> :: rat) + 1" by simp
    ultimately have "of_int (\<lfloor>x\<rfloor> + 1) \<le> x + 1 / 2" "x + 1 / 2 < of_int (\<lfloor>x\<rfloor> + 1) + 1"
      using hi by linarith+
    then have "\<lfloor>x + 1 / 2\<rfloor> = \<lfloor>x\<rfloor> + 1" by (rule floor_unique)
    with True show ?thesis by (simp add: round_def)
  next
    case False
    then have "x - of_int \<lfloor>x\<rfloor> < 1 / 2" by (simp only: frac_def not_le)
    with lo have "of_int \<lfloor>x\<rfloor> \<le> x + 1 / 2" "x + 1 / 2 < of_int \<lfloor>x\<rfloor> + 1"
      by linarith+
    then have "\<lfloor>x + 1 / 2\<rfloor> = \<lfloor>x\<rfloor>" by (rule floor_unique)
    with False show ?thesis by (simp add: round_def)
  qed
qed

lemma floor_rat_numeral: "\<lfloor>numeral a / numeral b :: rat\<rfloor> = numeral a div numeral b"
  using floor_divide_of_int_eq [of "numeral a" "numeral b", where ?'a = rat] by simp

lemma ceiling_rat_numeral: "\<lceil>numeral a / numeral b :: rat\<rceil> = - (- numeral a div numeral b)"
  using floor_divide_of_int_eq [of "- numeral a" "numeral b", where ?'a = rat]
  by (simp add: ceiling_def)

lemmas float_eval = fmul_def fdiv_def round64_def ilog2_def round_even_def pow2_def
  bit_length.simps Let_def floor_rat_numeral ceiling_rat_numeral

lemma round_even_nonneg: "0 \<le> x \<Longrightarrow> 0 \<le> round_even x"
  by (simp add: round_even_def)

lemma pow2_pos: "0 < pow2 e"
  by (simp add: pow2_def)

lemma round64_nonneg:
  assumes "round64 x = Some r" and "0 \<le> x"
  shows "0 \<le> r"
proof (cases "x = 0")
  case True
  with assms(1) show ?thesis by (simp add: round64_def)
next
  case False
  define e where "e = max (ilog2 \<bar>x\<bar> - 52) (- 1074)"
  from False assms(2) have pos: "0 < x" by simp
  with pow2_pos [of e] have "0 \<le> \<bar>x\<bar> / pow2 e" by simp
  then have "0 \<le> round_even (\<bar>x\<bar> / pow2 e)" by (rule round_even_nonneg)
  with pow2_pos [of e] have "0 \<le> of_int (round_even (\<bar>x\<bar> / pow2 e)) * pow2 e" by simp
  moreover from assms(1) False pos
  have "r = of_int (round_even (\<bar>x\<bar> / pow2 e)) * pow2 e"
    by (simp add: round64_def Let_def e_def split: if_splits)
  ultimately show ?thesis by simp
qed

text \<open>The exponent found by \<open>ilog2\<close> is that of the binade of \<open>x\<close>.\<close>

lemma bit_length_bounds:
  "0 < n \<Longrightarrow> 2 ^ (bit_length n - 1) \<le> n \<and> n < 2 ^ bit_length n"
proof (induction n rule: bit_length.induct)
  case (1 n)
  from "1.prems" have bl: "bit_length n = Suc (bit_length (n div 2))"
    by (subst bit_length.simps) simp
  show ?case
  proof (cases "n div 2 = 0")
    case True
    with "1.prems" have one: "n = 1" by (simp add: div_eq_0_iff)
    from True have "bit_length (n div 2) = 0" by (simp add: bit_length.simps)
    with bl have b1: "bit_length n = 1" by simp
    show ?thesis unfolding b1 by (simp add: one)
  next
    case False
    then have pos: "0 < n div 2" by simp
    from "1.prems" have "n \<noteq> 0" by simp
    from "1.IH" [OF this pos]
    have lo: "2 ^ (bit_length (n div 2) - 1) \<le> n div 2" and hi: "n div 2 < 2 ^ bit_length (n div 2)"
      by simp_all
    from pos have b: "0 < bit_length (n div 2)" by (subst bit_length.simps) simp
    then have "(2 :: nat) ^ bit_length (n div 2) = 2 * 2 ^ (bit_length (n div 2) - 1)"
      by (cases "bit_length (n div 2)") simp_all
    with lo have "2 ^ bit_length (n div 2) \<le> 2 * (n div 2)" by simp
    also have "\<dots> \<le> n" by simp
    finally have l: "2 ^ bit_length (n div 2) \<le> n" .
    from hi have "2 * (n div 2) + 2 \<le> 2 * 2 ^ bit_length (n div 2)" by simp
    moreover have "n < 2 * (n div 2) + 2" by presburger
    ultimately have h: "n < 2 * 2 ^ bit_length (n div 2)" by simp
    from l h show ?thesis by (simp add: bl)
  qed
qed

lemma ilog2_bounds:
  assumes "0 < x"
  shows "pow2 (ilog2 x) \<le> x \<and> x < pow2 (ilog2 x + 1)"
proof (cases "1 \<le> x")
  case True
  define n where "n = nat \<lfloor>x\<rfloor>"
  from True have fl: "1 \<le> \<lfloor>x\<rfloor>" by simp
  then have n: "0 < n" and nx: "int n = \<lfloor>x\<rfloor>" by (simp_all add: n_def)
  from bit_length_bounds [OF n]
  have lo: "2 ^ (bit_length n - 1) \<le> n" and hi: "n < 2 ^ bit_length n" by simp_all
  from n have b: "0 < bit_length n" by (subst bit_length.simps) simp
  with True have k: "ilog2 x = int (bit_length n - 1)"
    by (simp add: ilog2_def n_def [symmetric] of_nat_diff)
  with b have k1: "ilog2 x + 1 = int (bit_length n)" by simp
  have "of_int (int n) \<le> x" unfolding nx by (rule of_int_floor_le)
  then have nx': "of_nat n \<le> x" by simp
  from lo have "(2 :: rat) ^ (bit_length n - 1) \<le> of_nat n"
    by (metis of_nat_le_iff of_nat_numeral of_nat_power)
  then have l: "2 ^ (bit_length n - 1) \<le> x" using nx' by (rule order_trans)
  from hi have "int n + 1 \<le> 2 ^ bit_length n"
    by (metis Suc_leI of_nat_Suc of_nat_le_iff of_nat_numeral of_nat_power add.commute of_nat_1 of_nat_add)
  then have "\<lfloor>x\<rfloor> + 1 \<le> 2 ^ bit_length n" by (simp only: nx)
  then have "(of_int (\<lfloor>x\<rfloor> + 1) :: rat) \<le> of_int (2 ^ bit_length n)" by (simp only: of_int_le_iff)
  moreover have "x < of_int (\<lfloor>x\<rfloor> + 1)" using floor_correct [of x] by simp
  ultimately have h: "x < 2 ^ bit_length n" by simp
  have "pow2 (ilog2 x) = 2 ^ (bit_length n - 1)" by (simp only: k) (simp add: pow2_def)
  moreover have "pow2 (ilog2 x + 1) = 2 ^ bit_length n" by (simp only: k1) (simp add: pow2_def)
  ultimately show ?thesis using l h by (simp only:)
next
  case False
  with assms have x: "0 < x" "x < 1" by simp_all
  define y where "y = 1 / x"
  define n where "n = nat (\<lceil>y\<rceil> - 1)"
  from x have y: "1 < y" by (simp add: y_def)
  then have c: "2 \<le> \<lceil>y\<rceil>" by (simp add: le_ceiling_iff)
  then have n: "0 < n" and ny: "int n = \<lceil>y\<rceil> - 1" by (simp_all add: n_def)
  from bit_length_bounds [OF n]
  have lo: "2 ^ (bit_length n - 1) \<le> n" and hi: "n < 2 ^ bit_length n" by simp_all
  from n have b: "0 < bit_length n" by (subst bit_length.simps) simp
  from False have k: "ilog2 x = - int (bit_length n)"
    by (simp add: ilog2_def n_def y_def)
  have p1: "pow2 (- int (bit_length n)) = 1 / 2 ^ bit_length n"
    using b by (simp add: pow2_def)
  have p2: "pow2 (- int (bit_length n) + 1) = 1 / 2 ^ (bit_length n - 1)"
  proof (cases "bit_length n = 1")
    case True
    then show ?thesis by (simp add: pow2_def)
  next
    case False
    with b have "- int (bit_length n) + 1 < 0" "nat (- (- int (bit_length n) + 1)) = bit_length n - 1"
      by simp_all
    then show ?thesis by (simp add: pow2_def)
  qed
  from hi have "int n + 1 \<le> 2 ^ bit_length n"
    by (metis Suc_leI of_nat_Suc of_nat_le_iff of_nat_numeral of_nat_power add.commute of_nat_1 of_nat_add)
  then have "\<lceil>y\<rceil> \<le> 2 ^ bit_length n" by (simp add: ny)
  then have "y \<le> of_int (2 ^ bit_length n)" by (simp only: ceiling_le_iff)
  then have yh: "y \<le> 2 ^ bit_length n" by simp
  from lo have "(2 :: int) ^ (bit_length n - 1) \<le> int n"
    by (metis of_nat_le_iff of_nat_numeral of_nat_power)
  then have "(2 :: int) ^ (bit_length n - 1) < \<lceil>y\<rceil>" by (simp add: ny)
  then have "of_int (2 ^ (bit_length n - 1)) < y" by (simp only: less_ceiling_iff)
  then have yl: "2 ^ (bit_length n - 1) < y" by simp
  from yh x have l: "1 / 2 ^ bit_length n \<le> x"
    by (simp add: y_def field_simps)
  from yl x have h: "x < 1 / 2 ^ (bit_length n - 1)"
    by (simp add: y_def field_simps)
  have "pow2 (ilog2 x) = 1 / 2 ^ bit_length n" by (simp only: k p1)
  moreover have "pow2 (ilog2 x + 1) = 1 / 2 ^ (bit_length n - 1)" by (simp only: k p2)
  ultimately show ?thesis using l h by (simp only:)
qed

lemma pow2_powi: "pow2 e = 2 powi e"
  by (simp add: pow2_def power_int_def power_one_over inverse_eq_divide)

lemma round_even_near: "\<bar>of_int (round_even y) - y\<bar> \<le> 1 / 2"
proof -
  have lo: "of_int \<lfloor>y\<rfloor> \<le> y" by (rule of_int_floor_le)
  have hi: "y < of_int \<lfloor>y\<rfloor> + 1" using floor_correct [of y] by simp
  consider "y - of_int \<lfloor>y\<rfloor> < 1 / 2" | "1 / 2 < y - of_int \<lfloor>y\<rfloor>" | "y - of_int \<lfloor>y\<rfloor> = 1 / 2"
    by linarith
  then show ?thesis
  proof cases
    case 1
    then have "round_even y = \<lfloor>y\<rfloor>" by (simp add: round_even_def)
    with 1 lo show ?thesis by simp
  next
    case 2
    then have "round_even y = \<lfloor>y\<rfloor> + 1" by (simp add: round_even_def)
    then have "of_int (round_even y) - y = of_int \<lfloor>y\<rfloor> + 1 - y" by simp
    with 2 hi show ?thesis by linarith
  next
    case 3
    then have "round_even y = \<lfloor>y\<rfloor> \<or> round_even y = \<lfloor>y\<rfloor> + 1" by (simp add: round_even_def)
    then have "of_int (round_even y) - y = of_int \<lfloor>y\<rfloor> - y \<or>
        of_int (round_even y) - y = of_int \<lfloor>y\<rfloor> + 1 - y"
      by auto
    with 3 show ?thesis by linarith
  qed
qed

lemma round_even_bounds:
  assumes "0 \<le> y" and "y < of_int n"
  shows "0 \<le> round_even y \<and> round_even y \<le> n"
proof -
  from assms(1) have f0: "0 \<le> \<lfloor>y\<rfloor>" by simp
  from assms(2) have "\<lfloor>y\<rfloor> < n" by (simp add: floor_less_iff)
  with f0 show ?thesis by (simp add: round_even_def)
qed

text \<open>
  What the rounding yields for \<open>x \<noteq> 0\<close>: a multiple of the unit \<open>2 ^ e\<close> of its binade (or of
  the subnormal range), with a significand of at most 53 bits, no farther from \<open>x\<close> than
  half a unit.
\<close>

lemma round64_nearest:
  assumes "round64 x = Some r" and "x \<noteq> 0"
  shows "\<exists>m e. \<bar>r\<bar> = of_int m * pow2 e \<and> 0 \<le> m \<and> m \<le> 2 ^ 53 \<and> - 1074 \<le> e \<and>
    (e = - 1074 \<or> 2 ^ 52 \<le> m) \<and> \<bar>r - x\<bar> \<le> pow2 e / 2"
proof -
  define k where "k = ilog2 \<bar>x\<bar>"
  define e where "e = max (k - 52) (- 1074)"
  define y where "y = \<bar>x\<bar> / pow2 e"
  define m where "m = round_even y"
  from assms(2) have ax: "0 < \<bar>x\<bar>" by simp
  from ilog2_bounds [OF ax] have lo: "pow2 k \<le> \<bar>x\<bar>" and hi: "\<bar>x\<bar> < pow2 (k + 1)"
    by (simp_all add: k_def)
  have pe: "0 < pow2 e" by (rule pow2_pos)
  from ax pe have y0: "0 \<le> y" by (simp add: y_def)
  have "k + 1 \<le> e + 53" by (simp add: e_def)
  then have "pow2 (k + 1) \<le> pow2 (e + 53)"
    unfolding pow2_powi by (intro power_int_increasing) simp_all
  also have "pow2 (e + 53) = pow2 e * 2 ^ 53"
    unfolding pow2_powi by (simp add: power_int_add)
  finally have "\<bar>x\<bar> < pow2 e * 2 ^ 53" using hi by simp
  with pe have "y < 2 ^ 53" by (simp add: y_def field_simps)
  then have "y < of_int (2 ^ 53)" by simp
  from round_even_bounds [OF y0 this] have m: "0 \<le> m" "m \<le> 2 ^ 53" by (simp_all add: m_def)
  have big: "e = - 1074 \<or> 2 ^ 52 \<le> m"
  proof (cases "e = - 1074")
    case True
    then show ?thesis ..
  next
    case False
    then have "k = e + 52" by (simp add: e_def)
    moreover have "pow2 (e + 52) = pow2 e * 2 ^ 52"
      unfolding pow2_powi by (simp add: power_int_add)
    ultimately have "pow2 k = pow2 e * 2 ^ 52" by simp
    with lo pe have "2 ^ 52 \<le> y" by (simp add: y_def field_simps)
    then have "of_int (2 ^ 52) \<le> y" by simp
    then have "2 ^ 52 \<le> \<lfloor>y\<rfloor>" by (simp only: le_floor_iff)
    then have "2 ^ 52 \<le> m" by (simp add: m_def round_even_def)
    then show ?thesis ..
  qed
  from assms have r: "r = sgn x * (of_int m * pow2 e)"
    by (simp add: round64_def Let_def k_def e_def y_def m_def split: if_splits)
  from m(1) pe have nn: "0 \<le> of_int m * pow2 e" by simp
  from assms(2) have "\<bar>r\<bar> = \<bar>of_int m * pow2 e\<bar>"
    unfolding r by (simp only: abs_mult abs_sgn_eq) simp
  with nn have ar: "\<bar>r\<bar> = of_int m * pow2 e" by (simp only: abs_of_nonneg)
  have "sgn x * \<bar>x\<bar> = x" by (rule sgn_mult_abs)
  then have "r - x = sgn x * (of_int m * pow2 e - \<bar>x\<bar>)"
    by (simp only: r right_diff_distrib)
  then have "\<bar>r - x\<bar> = \<bar>of_int m * pow2 e - \<bar>x\<bar>\<bar>"
    using assms(2) by (simp add: abs_mult abs_sgn_eq)
  also from pe have "of_int m * pow2 e - \<bar>x\<bar> = (of_int m - y) * pow2 e"
    by (simp add: y_def algebra_simps)
  also have "\<bar>(of_int m - y) * pow2 e\<bar> = \<bar>of_int m - y\<bar> * pow2 e"
    using pe by (simp add: abs_mult)
  also have "\<dots> \<le> 1 / 2 * pow2 e"
    using round_even_near [of y] pe unfolding m_def by (intro mult_right_mono) simp_all
  finally have near: "\<bar>r - x\<bar> \<le> pow2 e / 2" by simp
  from ar m big near show ?thesis
    by (intro exI [of _ m] exI [of _ e]) (simp add: e_def)
qed

text \<open>
  The rounding at work: 0.3 is not a binary64 number, the nearest one lies below it; its
  product with 400 is rounded up to 120; halves go to the even neighbour.
\<close>

lemma round64_examples:
  "round64 (3 / 10) = Some (5404319552844595 / 2 ^ 54)"
  "fmul (5404319552844595 / 2 ^ 54) 400 = Some 120"
  "round64 (9007199254740993 / 2) = Some 4503599627370496"
  "round64 (9007199254740995 / 2) = Some 4503599627370498"
  "fdiv 1 0 = None"
  by (simp_all add: float_eval)

text \<open>
  C5 as stated fails: the conversion is a C cast, which drops the fractional part. For
  3/16 mm on the x axis (400 microsteps and 40 mm per rotation) the product 75 and the
  quotient 1.875 are binary64 numbers, so nothing is rounded on the way; the code yields 1
  and rounding to the nearest integer gives 2.
\<close>

theorem mm_to_steps_not_rounded:
  "mm_to_steps x_axis two_idle (3 / 16) = Inr 1 \<and> mm_to_steps_spec x_axis motor_A (3 / 16) = 2"
  by (simp add: mm_to_steps_def mm_to_steps_spec_def deref_def x_axis_def two_idle_def motor_A_def
      to_unsigned_def round_def float_eval)

text \<open>
  C5 amended. Let \<open>p\<close> be the binary64 product of the distance \<open>mm \<ge> 0\<close> and the microsteps
  per rotation of the first motor, and \<open>q\<close> the binary64 quotient of \<open>p\<close> and the millimetres
  per rotation, both finite, with \<open>q\<close> in the range of \<open>unsigned int\<close>. The conversion yields
  \<open>q\<close> with its fractional part dropped; this is the integer nearest to \<open>q\<close> exactly when
  the fractional part of \<open>q\<close> is below one half, and one less otherwise.
\<close>

theorem mm_to_steps_truncates:
  assumes "deref h (axis_motors axis) 0 = Inr (a, m)"
    and "0 \<le> mm" and "0 < mm_per_rotation axis"
    and "fmul mm (of_nat (unat (microsteps_per_rotation m))) = Some p"
    and "fdiv p (mm_per_rotation axis) = Some q"
    and "q < 2 ^ 32"
  shows "\<exists>w. mm_to_steps axis h mm = Inr w \<and> uint w = \<lfloor>q\<rfloor> \<and>
           round q = uint w + (if 1 / 2 \<le> frac q then 1 else 0)"
proof -
  from assms(2) have "0 \<le> mm * of_nat (unat (microsteps_per_rotation m))"
    by (intro mult_nonneg_nonneg of_nat_0_le_iff)
  with assms(4) have p: "0 \<le> p" unfolding fmul_def by (rule round64_nonneg)
  with assms(3) have "0 \<le> p / mm_per_rotation axis" by simp
  moreover from assms(3,5) have "round64 (p / mm_per_rotation axis) = Some q"
    by (simp add: fdiv_def)
  ultimately have "0 \<le> q" by (rule round64_nonneg [rotated])
  from to_unsigned_nonneg [OF this assms(6)] obtain w where
    w: "to_unsigned q = Inr w" "uint w = \<lfloor>q\<rfloor>" by blast
  from assms(1,4,5) w(1) have "mm_to_steps axis h mm = Inr w"
    by (simp add: mm_to_steps_def)
  moreover have "round q = uint w + (if 1 / 2 \<le> frac q then 1 else 0)"
    unfolding w(2) by (rule round_floor_frac)
  ultimately show ?thesis using w(2) by blast
qed

text \<open>
  At the binary64 number nearest to 0.3, on the x axis: the product is rounded to 120, the
  quotient is 3 and so is the result, where the exact quotient lies below 3.
\<close>

theorem mm_to_steps_truncates_witness:
  "deref two_idle (axis_motors x_axis) 0 = Inr (1, motor_A) \<and>
   fmul (5404319552844595 / 2 ^ 54) (of_nat (unat (microsteps_per_rotation motor_A))) = Some 120 \<and>
   fdiv 120 (mm_per_rotation x_axis) = Some 3 \<and>
   mm_to_steps x_axis two_idle (5404319552844595 / 2 ^ 54) = Inr 3 \<and>
   \<lfloor>5404319552844595 / 2 ^ 54 * 400 / 40 :: rat\<rfloor> = 2"
proof -
  have d: "deref two_idle (axis_motors x_axis) 0 = Inr (1, motor_A)"
    by (simp add: deref_def x_axis_def two_idle_def)
  have n: "(0 :: rat) \<le> 5404319552844595 / 2 ^ 54" and r: "0 < mm_per_rotation x_axis"
    by (simp_all add: x_axis_def)
  have p: "fmul (5404319552844595 / 2 ^ 54) (of_nat (unat (microsteps_per_rotation motor_A))) = Some 120"
    by (simp add: motor_A_def float_eval)
  have q: "fdiv 120 (mm_per_rotation x_axis) = Some 3"
    by (simp add: x_axis_def float_eval)
  have b: "(3 :: rat) < 2 ^ 32" by simp
  from mm_to_steps_truncates [OF d n r p q b] obtain w where
    w: "mm_to_steps x_axis two_idle (5404319552844595 / 2 ^ 54) = Inr w" "uint w = \<lfloor>3 :: rat\<rfloor>"
    by blast
  from w(2) have "uint w = 3" by simp
  then have "w = 3" by (simp add: word_uint_eq_iff)
  with w(1) have c: "mm_to_steps x_axis two_idle (5404319552844595 / 2 ^ 54) = Inr 3" by simp
  have e: "\<lfloor>5404319552844595 / 2 ^ 54 * 400 / 40 :: rat\<rfloor> = 2"
    by (simp add: floor_rat_numeral)
  from d p q c e show ?thesis by (intro conjI)
qed

subsection \<open>Moving an axis\<close>

















subsection \<open>The configuration parser\<close>

lemma sm_run_loop: "sm_run k m = Inr m' \<Longrightarrow> sm_loop m = sm_loop m'"
proof (induction k arbitrary: m)
  case 0
  then show ?case by simp
next
  case (Suc k)
  show ?case
  proof (cases "sm_stop m")
    case True
    with Suc.prems show ?thesis by simp
  next
    case False
    with Suc.prems obtain m1 where s: "sm_step m = Inr m1" and r: "sm_run k m1 = Inr m'"
      by (auto split: sum.splits)
    from False s have "sm_loop m = sm_loop m1" by (subst sm_loop.simps) simp
    with Suc.IH [OF r] show ?thesis by simp
  qed
qed

lemma sm_loop_stopped: "sm_stop m \<Longrightarrow> sm_loop m = Some (Inr m)"
  by (subst sm_loop.simps) simp

lemma sm_run_fault: "sm_run k m = Inl f \<Longrightarrow> sm_loop m = Some (Inl f)"
proof (induction k arbitrary: m)
  case 0
  then show ?case by simp
next
  case (Suc k)
  from Suc.prems have ns: "\<not> sm_stop m" by (auto split: if_splits)
  show ?case
  proof (cases "sm_step m")
    case (Inl g)
    with Suc.prems ns have "g = f" by simp
    with Inl ns show ?thesis by (subst sm_loop.simps) simp
  next
    case (Inr m1)
    with Suc.prems ns have "sm_run k m1 = Inl f" by simp
    from Suc.IH [OF this] Inr ns show ?thesis by (subst sm_loop.simps) simp
  qed
qed

lemma sm_run_numeral:
  "sm_run (numeral n) m =
     (if sm_stop m then Inr m
      else (case sm_step m of Inl f \<Rightarrow> Inl f | Inr m' \<Rightarrow> sm_run (pred_numeral n) m'))"
  by (simp add: numeral_eq_Suc)

lemma strncmp_eq_numeral:
  "strncmp_eq [] [] (numeral n) = True"
  "strncmp_eq [] (y # ys) (numeral n) = False"
  "strncmp_eq (x # xs) [] (numeral n) = False"
  "strncmp_eq (x # xs) (y # ys) (numeral n) = (x = y \<and> strncmp_eq xs ys (pred_numeral n))"
  by (simp_all add: numeral_eq_Suc)

lemmas parser_defs =
  sm_run_numeral strncmp_eq_numeral initial_def sm_step_def state_read_line_def state_read_param_def
  state_read_identifier_def state_set_identifier_def state_check_param_def state_read_value_def
  state_set_param_def state_read_motor_list_def state_read_motor_list_loop.simps read_motor_name_def
  get_motor_node_by_name_def find_motor.simps append_motor_def set_motor_def set_axis_def fail_with_def
  scan_chars.simps char_at_def islower_def isupper_def isdigit_def isalnum_def isblank_def
  PARAM_MAX_LEN_def MOTOR_LIST_SIZE_MAX_def MOTOR_NAME_LEN_def AXIS_NAME_LEN_def ERROR_STR_LEN_def
  MOTOR_CONFIG_NAME_def snprintf_def strncpy_def c_str_def nl_def motor_params_def axis_params_def
  empty_motor_def empty_axis_def replicate_8 Let_def

lemmas init_defs = init_motors_def init_motor_loop.simps init_axis_loop.simps axis_handles.simps
  validate_motor_node_def validate_axis_node_def axis_init_ok_def str_to_int_def str_to_dir_def atoi_def
  decimal_def int_to_gpio_pin_def main_pin_def aon_pin_def is_valid_microstep_def DIRECTION_INVALID_def
  INVALID_PIN_def

text \<open>
  C8, refuted by the code. \<open>state_set_identifier\<close> compares only the first five characters of
  the identifier with \<open>motor\<close> (four with \<open>axis\<close>), and \<open>state_check_param\<close> compares only as
  many characters of the key as the valid name has, after accepting every key that starts
  with \<open>motors\<close> in either section type. An identifier or key that has a valid name as a
  proper prefix is therefore accepted: the state machine goes on to \<open>CLEANUP\<close>, \<open>READ_VALUE\<close>
  or \<open>READ_MOTOR_LIST\<close>, not to \<open>ERROR\<close>. The file \<open>prefixed_names\<close>, whose header is
  \<open>[motorx]\<close> and whose keys are \<open>namefoo\<close>, \<open>step_pinx\<close>, \<open>dir_piny\<close>, \<open>steps_per_rotationz\<close>,
  \<open>directionq\<close> and \<open>microstepw\<close>, is read without any error line: where \<open>stepper_init\<close>
  succeeds, \<open>read_motor_config\<close> returns 0 and constructs the motor \<open>m1\<close>.
\<close>

theorem prefixed_names_accepted:
  "(\<forall>m rest. state_set_identifier (m\<lparr>param_buff := ''motor'' @ rest\<rparr>) =
       m\<lparr>param_buff := ''motor'' @ rest, last_id := MOTOR, motor_list_len := motor_list_len m + 1,
         motor_config_state := CLEANUP\<rparr>) \<and>
   (\<forall>m rest. state_check_param (m\<lparr>last_id := MOTOR, param_buff := ''name'' @ rest\<rparr>) =
       m\<lparr>last_id := MOTOR, param_buff := ''name'' @ rest, motor_config_state := READ_VALUE,
         param_id := MOTOR_NAME\<rparr>) \<and>
   (\<forall>m rest. state_check_param (m\<lparr>last_id := MOTOR, param_buff := ''motors'' @ rest\<rparr>) =
       m\<lparr>last_id := MOTOR, param_buff := ''motors'' @ rest, motor_config_state := READ_MOTOR_LIST,
         param_id := MOTOR_LIST\<rparr>) \<and>
   read_motor_config (\<lambda>node. True) prefixed_names =
     Some (Inr \<lparr>retval = 0, printed = [], steppers_made = [''m1''], axes_made = []\<rparr>)"
proof (intro conjI allI)
  fix m :: machine and rest :: string
  show "state_set_identifier (m\<lparr>param_buff := ''motor'' @ rest\<rparr>) =
       m\<lparr>param_buff := ''motor'' @ rest, last_id := MOTOR, motor_list_len := motor_list_len m + 1,
         motor_config_state := CLEANUP\<rparr>"
    by (simp add: state_set_identifier_def strncmp_eq_numeral)
  show "state_check_param (m\<lparr>last_id := MOTOR, param_buff := ''name'' @ rest\<rparr>) =
       m\<lparr>last_id := MOTOR, param_buff := ''name'' @ rest, motor_config_state := READ_VALUE,
         param_id := MOTOR_NAME\<rparr>"
    by (simp add: state_check_param_def strncmp_eq_numeral motor_params_def)
  show "state_check_param (m\<lparr>last_id := MOTOR, param_buff := ''motors'' @ rest\<rparr>) =
       m\<lparr>last_id := MOTOR, param_buff := ''motors'' @ rest, motor_config_state := READ_MOTOR_LIST,
         param_id := MOTOR_LIST\<rparr>"
    by (simp add: state_check_param_def strncmp_eq_numeral)
next
  have "\<exists>m. sm_run 60 (initial prefixed_names) = Inr m \<and> sm_stop m \<and> sm_error m = 0 \<and>
      stderr m = [] \<and> motor_list_len m = 1 \<and> axis_list_len m = 0 \<and>
      length (motor_list m) = 8 \<and>
      motor_list m ! 0 = \<lparr>mc_name = ''m1'', mc_step_pin = main_pin 76, mc_dir_pin = main_pin 144,
        mc_microstep = 16, mc_steps_rot = 200, mc_direction = 1, mc_motor = None\<rparr>"
    by (simp add: parser_defs init_defs prefixed_names_def)
  then obtain m where run: "sm_run 60 (initial prefixed_names) = Inr m" and st: "sm_stop m"
    and m: "sm_error m = 0" "stderr m = []" "motor_list_len m = 1" "axis_list_len m = 0"
      "length (motor_list m) = 8"
      "motor_list m ! 0 = \<lparr>mc_name = ''m1'', mc_step_pin = main_pin 76, mc_dir_pin = main_pin 144,
        mc_microstep = 16, mc_steps_rot = 200, mc_direction = 1, mc_motor = None\<rparr>"
    by blast
  from sm_run_loop [OF run] sm_loop_stopped [OF st]
  have loop: "sm_loop (initial prefixed_names) = Some (Inr m)" by simp
  have "init_motors (\<lambda>node. True) m = Inr (0, [''m1''], [])"
    by (simp add: init_defs m)
  with loop m show "read_motor_config (\<lambda>node. True) prefixed_names =
     Some (Inr \<lparr>retval = 0, printed = [], steppers_made = [''m1''], axes_made = []\<rparr>)"
    by (simp add: read_motor_config_def)
qed

text \<open>
  C9, refuted by the code. \<open>state_set_identifier\<close> increments \<open>motor_list_len\<close> (or
  \<open>axis_list_len\<close>) for every section header and never compares it with
  \<open>MOTOR_LIST_SIZE_MAX\<close>; no other state does either. A file of nine \<open>[motor]\<close> headers (or
  nine \<open>[axis]\<close> headers) is parsed to the end without an error line and leaves the length
  at 9 for lists of 8 entries, and a \<open>name\<close> line after the ninth header is written to entry
  8, outside the list.
\<close>

theorem ninth_section_accepted:
  "(\<forall>m. state_set_identifier (m\<lparr>param_buff := ''motor''\<rparr>) =
       m\<lparr>param_buff := ''motor'', last_id := MOTOR, motor_list_len := motor_list_len m + 1,
         motor_config_state := CLEANUP\<rparr>) \<and>
   (\<forall>m. state_set_identifier (m\<lparr>param_buff := ''axis''\<rparr>) =
       m\<lparr>param_buff := ''axis'', last_id := AXIS, axis_list_len := axis_list_len m + 1,
         motor_config_state := CLEANUP\<rparr>) \<and>
   (\<exists>m. sm_loop (initial nine_motors) = Some (Inr m) \<and> motor_config_state m = FINISHED \<and>
        sm_error m = 0 \<and> stderr m = [] \<and> motor_list_len m = 9 \<and>
        length (motor_list m) = MOTOR_LIST_SIZE_MAX) \<and>
   (\<exists>m. sm_loop (initial nine_axes) = Some (Inr m) \<and> motor_config_state m = FINISHED \<and>
        sm_error m = 0 \<and> stderr m = [] \<and> axis_list_len m = 9 \<and>
        length (axis_list m) = MOTOR_LIST_SIZE_MAX) \<and>
   read_motor_config ok (nine_motors @ [''name=x'' @ nl]) = Some (Inl OutOfBounds) \<and>
   read_motor_config ok (nine_axes @ [''name=x'' @ nl]) = Some (Inl OutOfBounds)"
proof (intro conjI allI)
  fix m :: machine
  show "state_set_identifier (m\<lparr>param_buff := ''motor''\<rparr>) =
       m\<lparr>param_buff := ''motor'', last_id := MOTOR, motor_list_len := motor_list_len m + 1,
         motor_config_state := CLEANUP\<rparr>"
    by (simp add: state_set_identifier_def strncmp_eq_numeral)
  show "state_set_identifier (m\<lparr>param_buff := ''axis''\<rparr>) =
       m\<lparr>param_buff := ''axis'', last_id := AXIS, axis_list_len := axis_list_len m + 1,
         motor_config_state := CLEANUP\<rparr>"
    by (simp add: state_set_identifier_def strncmp_eq_numeral)
next
  have "\<exists>m. sm_run 60 (initial nine_motors) = Inr m \<and> sm_stop m \<and> motor_config_state m = FINISHED \<and>
      sm_error m = 0 \<and> stderr m = [] \<and> motor_list_len m = 9 \<and>
      length (motor_list m) = MOTOR_LIST_SIZE_MAX"
    by (simp add: parser_defs nine_motors_def)
  then obtain m where run: "sm_run 60 (initial nine_motors) = Inr m" and st: "sm_stop m"
    and m: "motor_config_state m = FINISHED" "sm_error m = 0" "stderr m = []" "motor_list_len m = 9"
      "length (motor_list m) = MOTOR_LIST_SIZE_MAX"
    by blast
  from sm_run_loop [OF run] sm_loop_stopped [OF st]
  have "sm_loop (initial nine_motors) = Some (Inr m)" by simp
  with m show "\<exists>m. sm_loop (initial nine_motors) = Some (Inr m) \<and> motor_config_state m = FINISHED \<and>
        sm_error m = 0 \<and> stderr m = [] \<and> motor_list_len m = 9 \<and>
        length (motor_list m) = MOTOR_LIST_SIZE_MAX"
    by blast
next
  have "\<exists>m. sm_run 60 (initial nine_axes) = Inr m \<and> sm_stop m \<and> motor_config_state m = FINISHED \<and>
      sm_error m = 0 \<and> stderr m = [] \<and> axis_list_len m = 9 \<and>
      length (axis_list m) = MOTOR_LIST_SIZE_MAX"
    by (simp add: parser_defs nine_axes_def)
  then obtain m where run: "sm_run 60 (initial nine_axes) = Inr m" and st: "sm_stop m"
    and m: "motor_config_state m = FINISHED" "sm_error m = 0" "stderr m = []" "axis_list_len m = 9"
      "length (axis_list m) = MOTOR_LIST_SIZE_MAX"
    by blast
  from sm_run_loop [OF run] sm_loop_stopped [OF st]
  have "sm_loop (initial nine_axes) = Some (Inr m)" by simp
  with m show "\<exists>m. sm_loop (initial nine_axes) = Some (Inr m) \<and> motor_config_state m = FINISHED \<and>
        sm_error m = 0 \<and> stderr m = [] \<and> axis_list_len m = 9 \<and>
        length (axis_list m) = MOTOR_LIST_SIZE_MAX"
    by blast
next
  have "sm_run 70 (initial (nine_motors @ [''name=x'' @ nl])) = Inl OutOfBounds"
    by (simp add: parser_defs nine_motors_def)
  from sm_run_fault [OF this]
  show "read_motor_config ok (nine_motors @ [''name=x'' @ nl]) = Some (Inl OutOfBounds)"
    by (simp add: read_motor_config_def)
next
  have "sm_run 70 (initial (nine_axes @ [''name=x'' @ nl])) = Inl OutOfBounds"
    by (simp add: parser_defs nine_axes_def)
  from sm_run_fault [OF this]
  show "read_motor_config ok (nine_axes @ [''name=x'' @ nl]) = Some (Inl OutOfBounds)"
    by (simp add: read_motor_config_def)
qed

subsection \<open>Motor lists of an axis\<close>

lemma strncmp_eq_short: "length a < n \<Longrightarrow> strncmp_eq a b n = (a = b)"
  by (induction a b n rule: strncmp_eq.induct) auto

lemma find_motor_absent:
  assumes "len \<le> int (length ml)" and "length name < MOTOR_NAME_LEN"
    and "\<And>j. i \<le> j \<Longrightarrow> int j < len \<Longrightarrow> mc_name (ml ! j) \<noteq> name"
  shows "find_motor ml len name i = Inr None"
  using assms
proof (induction ml len name i rule: find_motor.induct)
  case (1 ml len name i)
  show ?case
  proof (cases "int i < len")
    case False
    then show ?thesis by (subst find_motor.simps) simp
  next
    case True
    with "1.prems"(1) have in_range: "\<not> length ml \<le> i" by simp
    from "1.prems"(3) [of i] True have "mc_name (ml ! i) \<noteq> name" by simp
    with "1.prems"(2) have ne: "\<not> strncmp_eq name (mc_name (ml ! i)) MOTOR_NAME_LEN"
      by (auto simp: strncmp_eq_short)
    have "find_motor ml len name (Suc i) = Inr None"
      using "1.IH" [OF True in_range ne "1.prems"(1,2)] "1.prems"(3) by simp
    with True in_range ne show ?thesis by (subst find_motor.simps) simp
  qed
qed

lemma find_motor_present:
  assumes "len \<le> int (length ml)" and "length name < MOTOR_NAME_LEN"
    and "\<exists>j. i \<le> j \<and> int j < len \<and> mc_name (ml ! j) = name"
  shows "\<exists>k. find_motor ml len name i = Inr (Some k)"
  using assms
proof (induction ml len name i rule: find_motor.induct)
  case (1 ml len name i)
  from "1.prems"(3) obtain j where j: "i \<le> j" "int j < len" "mc_name (ml ! j) = name" by blast
  then have lt: "int i < len" by simp
  with "1.prems"(1) have in_range: "\<not> length ml \<le> i" by simp
  show ?case
  proof (cases "strncmp_eq name (mc_name (ml ! i)) MOTOR_NAME_LEN")
    case True
    with lt in_range show ?thesis by (subst find_motor.simps) simp
  next
    case False
    with "1.prems"(2) have "mc_name (ml ! i) \<noteq> name" by (auto simp: strncmp_eq_short)
    with j have "Suc i \<le> j" by (cases "i = j") auto
    with j have "\<exists>j. Suc i \<le> j \<and> int j < len \<and> mc_name (ml ! j) = name" by blast
    from "1.IH" [OF lt in_range False "1.prems"(1,2) this]
    obtain k where "find_motor ml len name (Suc i) = Inr (Some k)" by blast
    with lt in_range False show ?thesis by (subst find_motor.simps) simp
  qed
qed

lemma defined_motors_nth:
  assumes "motor_list_len m \<le> int (length (motor_list m))"
  shows "(name \<in> set (defined_motors m)) =
    (\<exists>j. int j < motor_list_len m \<and> mc_name (motor_list m ! j) = name)"
proof -
  let ?n = "nat (motor_list_len m)"
  from assms have n: "?n \<le> length (motor_list m)" by simp
  have lt: "(j < ?n) = (int j < motor_list_len m)" for j by auto
  from n have "set (take ?n (motor_list m)) = (!) (motor_list m) ` {0..<?n}"
    by (simp add: nth_image)
  then have "(name \<in> set (defined_motors m)) = (\<exists>j. j < ?n \<and> mc_name (motor_list m ! j) = name)"
    by (auto simp: defined_motors_def)
  then show ?thesis by (simp add: lt)
qed

text \<open>The buffer of a line is the line and its NUL.\<close>

lemma drop_Cons_char_at:
  assumes "drop off (line @ [CHR 0x00]) = x # r"
  shows "char_at line off = x \<and> drop (Suc off) (line @ [CHR 0x00]) = r \<and> off \<le> length line"
proof -
  let ?b = "line @ [CHR 0x00]"
  have lt: "off < length ?b"
  proof (rule ccontr)
    assume "\<not> off < length ?b"
    then have "length ?b \<le> off" by (simp only: not_less)
    then have "drop off ?b = []" by (rule drop_all)
    with assms show False by (simp only: list.distinct)
  qed
  then have le: "off \<le> length line" by simp
  from lt have "hd (drop off ?b) = ?b ! off" by (rule hd_drop_conv_nth)
  with assms have nth: "?b ! off = x" by (simp only: list.sel)
  have "char_at line off = ?b ! off"
  proof (cases "off < length line")
    case True
    then show ?thesis by (simp add: char_at_def nth_append)
  next
    case False
    with le have "off = length line" by simp
    then show ?thesis by (simp add: char_at_def)
  qed
  with nth have c: "char_at line off = x" by (simp only:)
  have "drop (Suc off) ?b = tl (drop off ?b)" by (simp only: drop_Suc tl_drop)
  with assms have d: "drop (Suc off) ?b = r" by (simp only: list.sel)
  from c d le show ?thesis by (intro conjI)
qed

lemma scan_chars_token:
  assumes "list_all ok t" and "\<not> ok c" and "drop off (line @ [CHR 0x00]) = t @ c # rest"
    and "off + length t < n" and "length buf + length t \<le> PARAM_MAX_LEN - 1"
  shows "scan_chars ok line n off buf = (Break c, off + length t, buf @ t)"
  using assms
proof (induction t arbitrary: off buf)
  case Nil
  from Nil.prems(3) have "drop off (line @ [CHR 0x00]) = c # rest" by (simp only: append_Nil)
  from drop_Cons_char_at [OF this] have "char_at line off = c" by (rule conjunct1)
  with Nil.prems(2,4) show ?case by (subst scan_chars.simps) simp
next
  case (Cons x xs)
  from Cons.prems(3) have "drop off (line @ [CHR 0x00]) = x # (xs @ c # rest)"
    by (simp only: append_Cons)
  from drop_Cons_char_at [OF this]
  have x: "char_at line off = x" and d: "drop (Suc off) (line @ [CHR 0x00]) = xs @ c # rest"
    by (rule conjunct1, rule conjunct2 [THEN conjunct1])
  from Cons.prems(1) have okx: "ok x" and okxs: "list_all ok xs" by simp_all
  from Cons.prems(4) have n': "Suc off + length xs < n" and lt: "off < n" by simp_all
  from Cons.prems(5) have len': "length (buf @ [x]) + length xs \<le> PARAM_MAX_LEN - 1"
    and room: "length buf < PARAM_MAX_LEN - 1"
    by simp_all
  from Cons.IH [OF okxs Cons.prems(2) d n' len']
  have "scan_chars ok line n (Suc off) (buf @ [x]) = (Break c, Suc off + length xs, (buf @ [x]) @ xs)" .
  with x okx lt room show ?case by (subst scan_chars.simps) simp
qed

lemma list_end_not_name_char: "list_end c \<Longrightarrow> \<not> name_char c"
  by (auto simp: list_end_def name_char_def isblank_def isalnum_def islower_def isupper_def isdigit_def)

lemma motor_name_scan:
  assumes "motor_name t" and "\<not> name_char c"
    and "drop (offset m) (line @ [CHR 0x00]) = t @ c # rest"
    and "length line < line_size m"
  shows "scan_chars (\<lambda>c. isalnum c \<or> c = CHR ''-'' \<or> c = CHR ''_'') line (line_size m) (offset m) [] =
     (Break c, offset m + length t, t)"
proof -
  from assms(3) have "length (drop (offset m) (line @ [CHR 0x00])) = length (t @ c # rest)"
    by (rule arg_cong)
  then have "offset m + length t \<le> length line" by simp
  with assms(4) have n: "offset m + length t < line_size m" by simp
  from assms(1) have ok: "list_all (\<lambda>c. isalnum c \<or> c = CHR ''-'' \<or> c = CHR ''_'') t"
    and short: "length [] + length t \<le> PARAM_MAX_LEN - 1"
    by (simp_all add: motor_name_def name_char_def [abs_def] PARAM_MAX_LEN_def)
  from assms(2) have stop: "\<not> (isalnum c \<or> c = CHR ''-'' \<or> c = CHR ''_'')"
    by (simp add: name_char_def)
  from scan_chars_token [OF ok stop assms(3) n short]
  show ?thesis by simp
qed

lemma append_motor_slot:
  assumes "0 < free_slots m"
  shows "\<exists>m'. append_motor k m = Inr m' \<and> free_slots m' = free_slots m - 1 \<and>
    motor_config_state m' = motor_config_state m \<and> err_str m' = err_str m \<and>
    motor_list m' = motor_list m \<and> motor_list_len m' = motor_list_len m \<and>
    sm_stop m' = sm_stop m \<and> sm_error m' = sm_error m \<and> line_buff m' = line_buff m \<and>
    line_size m' = line_size m \<and> offset m' = offset m \<and> value_buff m' = value_buff m \<and>
    stderr m' = stderr m"
proof -
  let ?i = "axis_list_len m - 1"
  let ?ax = "axis_list m ! nat ?i"
  from assms have i: "0 \<le> ?i" "?i < int (length (axis_list m))"
    and full: "length (ac_motors ?ax) = MOTOR_LIST_SIZE_MAX"
    and cnt: "unat (ac_count ?ax) < MOTOR_LIST_SIZE_MAX"
    by (auto simp: free_slots_def Let_def split: if_splits)
  from cnt have "unat (ac_count ?ax) + unat (1 :: 32 word) < 2 ^ 32"
    by (simp add: MOTOR_LIST_SIZE_MAX_def)
  then have "unat (ac_count ?ax + 1) = unat (ac_count ?ax) + 1"
    by (simp add: unat_add_lem [THEN iffD1])
  with i full cnt show ?thesis
    by (simp add: append_motor_def free_slots_def Let_def)
qed

lemma read_motor_name_known:
  assumes "motor_name t" and "drop (offset m) (line @ [CHR 0x00]) = t @ CHR '','' # rest"
    and "length line < line_size m"
    and "motor_list_len m \<le> int (length (motor_list m))"
    and "t \<in> set (defined_motors m)"
    and "0 < free_slots m"
  shows "\<exists>m'. read_motor_name line m = Inr (False, m') \<and> offset m' = Suc (offset m + length t) \<and>
    free_slots m' = free_slots m - 1 \<and> motor_list m' = motor_list m \<and>
    motor_list_len m' = motor_list_len m \<and> line_size m' = line_size m \<and>
    stderr m' = stderr m \<and> sm_stop m' = sm_stop m"
proof -
  let ?m2 = "m\<lparr>offset := Suc (offset m + length t), value_buff := t\<rparr>"
  have "list_end (CHR '','')" by (simp add: list_end_def)
  then have le: "\<not> name_char (CHR '','')" by (rule list_end_not_name_char)
  note sc = motor_name_scan [OF assms(1) le assms(2,3)]
  from assms(1) have ne: "t \<noteq> []" and short: "length t < MOTOR_NAME_LEN"
    by (simp_all add: motor_name_def PARAM_MAX_LEN_def MOTOR_NAME_LEN_def)
  from assms(5) defined_motors_nth [OF assms(4)]
  have "\<exists>j. 0 \<le> j \<and> int j < motor_list_len m \<and> mc_name (motor_list m ! j) = t" by simp
  from find_motor_present [OF assms(4) short this]
  obtain k where k: "find_motor (motor_list m) (motor_list_len m) t 0 = Inr (Some k)" by blast
  have fs: "free_slots ?m2 = free_slots m" by (simp add: free_slots_def Let_def)
  with assms(6) have "0 < free_slots ?m2" by simp
  from append_motor_slot [OF this, of k]
  obtain m' where m': "append_motor k ?m2 = Inr m'" "free_slots m' = free_slots ?m2 - 1"
    "motor_list m' = motor_list ?m2" "motor_list_len m' = motor_list_len ?m2"
    "sm_stop m' = sm_stop ?m2" "line_size m' = line_size ?m2" "offset m' = offset ?m2"
    "stderr m' = stderr ?m2"
    by blast
  from sc ne k m'(1) have "read_motor_name line m = Inr (False, m')"
    by (simp add: read_motor_name_def get_motor_node_by_name_def)
  with m' fs show ?thesis by simp
qed

lemma read_motor_name_unknown:
  assumes "motor_name name" and "\<not> name_char c"
    and "drop (offset m) (line @ [CHR 0x00]) = name @ c # rest"
    and "length line < line_size m"
    and "motor_list_len m \<le> int (length (motor_list m))"
    and "name \<notin> set (defined_motors m)"
  shows "\<exists>m'. read_motor_name line m = Inr (True, m') \<and> motor_config_state m' = ERROR \<and>
    err_str m' = (if list_end c then snprintf (ERROR_STR_LEN - 1) (not_found_msg name)
                  else invalid_char_msg c ''type identifier'') \<and>
    stderr m' = stderr m \<and> sm_stop m' = sm_stop m"
proof -
  note sc = motor_name_scan [OF assms(1,2,3,4)]
  from assms(1) have ne: "name \<noteq> []" and short: "length name < MOTOR_NAME_LEN"
    by (simp_all add: motor_name_def PARAM_MAX_LEN_def MOTOR_NAME_LEN_def)
  from assms(6) defined_motors_nth [OF assms(5)]
  have "\<And>j. 0 \<le> j \<Longrightarrow> int j < motor_list_len m \<Longrightarrow> mc_name (motor_list m ! j) \<noteq> name" by auto
  from find_motor_absent [OF assms(5) short this]
  have k: "find_motor (motor_list m) (motor_list_len m) name 0 = Inr None" by simp
  show ?thesis
  proof (cases "list_end c")
    case True
    with sc ne k show ?thesis
      by (auto simp: read_motor_name_def get_motor_node_by_name_def fail_with_def not_found_msg_def
          MOTOR_CONFIG_NAME_def list_end_def)
  next
    case False
    then have "c \<noteq> CHR '',''" "\<not> (isblank c \<or> c = CHR ''#'' \<or> c = CHR 0x0A)"
      by (simp_all add: list_end_def)
    with sc False show ?thesis
      by (simp add: read_motor_name_def)
  qed
qed

lemma motor_list_loop_unknown:
  assumes "\<forall>t \<in> set known. motor_name t \<and> t \<in> set (defined_motors m)"
    and "motor_name name" and "name \<notin> set (defined_motors m)" and "\<not> name_char c"
    and "drop (offset m) (line @ [CHR 0x00]) = concat (map (\<lambda>t. t @ '','') known) @ name @ c # rest"
    and "length line < line_size m"
    and "motor_list_len m \<le> int (length (motor_list m))"
    and "length known \<le> free_slots m"
  shows "\<exists>m'. state_read_motor_list_loop line m = Inr m' \<and> motor_config_state m' = ERROR \<and>
    err_str m' = (if list_end c then snprintf (ERROR_STR_LEN - 1) (not_found_msg name)
                  else invalid_char_msg c ''type identifier'') \<and>
    stderr m' = stderr m \<and> sm_stop m' = sm_stop m"
  using assms
proof (induction known arbitrary: m)
  case Nil
  have "concat (map (\<lambda>t. t @ '','') []) @ name @ c # rest = name @ c # rest" by simp
  with Nil.prems(5) have d: "drop (offset m) (line @ [CHR 0x00]) = name @ c # rest" by (simp only:)
  from read_motor_name_unknown [OF Nil.prems(2,4) d Nil.prems(6,7,3)]
  obtain m' where "read_motor_name line m = Inr (True, m')" "motor_config_state m' = ERROR"
    "err_str m' = (if list_end c then snprintf (ERROR_STR_LEN - 1) (not_found_msg name)
                  else invalid_char_msg c ''type identifier'')"
    "stderr m' = stderr m" "sm_stop m' = sm_stop m"
    by blast
  then show ?case by (subst state_read_motor_list_loop.simps) simp
next
  case (Cons t ts)
  let ?tail = "concat (map (\<lambda>t. t @ '','') ts) @ name @ c # rest"
  have "concat (map (\<lambda>t. t @ '','') (t # ts)) @ name @ c # rest = t @ CHR '','' # ?tail" by simp
  with Cons.prems(5) have d: "drop (offset m) (line @ [CHR 0x00]) = t @ CHR '','' # ?tail"
    by (simp only:)
  from Cons.prems(1) have t: "motor_name t" "t \<in> set (defined_motors m)" by simp_all
  from Cons.prems(8) have room: "0 < free_slots m" by simp
  from read_motor_name_known [OF t(1) d Cons.prems(6,7) t(2) room]
  obtain m1 where m1: "read_motor_name line m = Inr (False, m1)"
    "offset m1 = Suc (offset m + length t)" "free_slots m1 = free_slots m - 1"
    "motor_list m1 = motor_list m" "motor_list_len m1 = motor_list_len m"
    "line_size m1 = line_size m" "stderr m1 = stderr m" "sm_stop m1 = sm_stop m"
    by blast
  have same: "defined_motors m1 = defined_motors m" by (simp add: defined_motors_def m1)
  have "Suc (offset m + length t) = Suc (length t) + offset m" by simp
  then have "drop (offset m1) (line @ [CHR 0x00]) =
      drop (Suc (length t)) (drop (offset m) (line @ [CHR 0x00]))"
    by (simp only: m1(2) drop_drop)
  also have "\<dots> = drop (Suc (length t)) (t @ CHR '','' # ?tail)" by (simp only: d)
  also have "\<dots> = ?tail" by simp
  finally have d1: "drop (offset m1) (line @ [CHR 0x00]) = ?tail" .
  from Cons.prems(1) same have p1: "\<forall>t \<in> set ts. motor_name t \<and> t \<in> set (defined_motors m1)" by simp
  from Cons.prems(3) same have p3: "name \<notin> set (defined_motors m1)" by simp
  from Cons.prems(6) m1 have p6: "length line < line_size m1" by simp
  from Cons.prems(7) m1 have p7: "motor_list_len m1 \<le> int (length (motor_list m1))" by simp
  from Cons.prems(8) m1 have p8: "length ts \<le> free_slots m1" by simp
  from Cons.IH [OF p1 Cons.prems(2) p3 Cons.prems(4) d1 p6 p7 p8]
  obtain m' where "state_read_motor_list_loop line m1 = Inr m'" "motor_config_state m' = ERROR"
    "err_str m' = (if list_end c then snprintf (ERROR_STR_LEN - 1) (not_found_msg name)
                  else invalid_char_msg c ''type identifier'')"
    "stderr m' = stderr m1" "sm_stop m' = sm_stop m1"
    by blast
  with m1 show ?case by (subst state_read_motor_list_loop.simps) simp
qed

lemma name_char_not_nul: "name_char c \<Longrightarrow> c \<noteq> CHR 0x00"
  by (auto simp: name_char_def isalnum_def islower_def isupper_def isdigit_def)

lemma not_found_msg_no_nul:
  assumes "motor_name name"
  shows "CHR 0x00 \<notin> set (not_found_msg name)"
proof -
  from assms have "\<forall>c \<in> set name. name_char c" by (simp add: motor_name_def list_all_iff)
  then have "CHR 0x00 \<notin> set name" using name_char_not_nul by blast
  then show ?thesis by (simp add: not_found_msg_def)
qed

lemma c_str_not_found_msg:
  assumes "motor_name name"
  shows "c_str (snprintf (ERROR_STR_LEN - 1) (not_found_msg name)) = take 62 (not_found_msg name)"
proof -
  have "set (take 62 (not_found_msg name)) \<subseteq> set (not_found_msg name)" by (rule set_take_subset)
  with not_found_msg_no_nul [OF assms] have "\<forall>c \<in> set (take 62 (not_found_msg name)). c \<noteq> CHR 0x00"
    by blast
  then have "takeWhile (\<lambda>c. c \<noteq> CHR 0x00) (take 62 (not_found_msg name)) = take 62 (not_found_msg name)"
    by (simp add: takeWhile_eq_all_conv)
  then show ?thesis by (simp add: c_str_def snprintf_def ERROR_STR_LEN_def)
qed

lemma take_length_append: "n = length xs \<Longrightarrow> take n (xs @ ys) = xs"
  by simp

lemma not_found_msg_names:
  assumes "motor_name name"
  shows "take (6 + length name) (take 62 (not_found_msg name)) = ''Motor '' @ name"
proof -
  from assms have "6 + length name \<le> 62" by (simp add: motor_name_def PARAM_MAX_LEN_def)
  then have cut: "take (6 + length name) (take 62 (not_found_msg name)) =
      take (6 + length name) (not_found_msg name)"
    by (simp add: min_def)
  have msg: "not_found_msg name =
      (''Motor '' @ name) @ '' not found before axis definition in motor.conf''"
    by (simp add: not_found_msg_def)
  have "take (6 + length name)
      ((''Motor '' @ name) @ '' not found before axis definition in motor.conf'') = ''Motor '' @ name"
    by (rule take_length_append) simp
  then show ?thesis unfolding cut unfolding msg .
qed

lemma sm_loop_unknown_motor:
  assumes "motor_config_state m = READ_MOTOR_LIST" and "\<not> sm_stop m"
    and "line_buff m = Some line" and "length line < line_size m"
    and "drop (offset m) (line @ [CHR 0x00]) = concat (map (\<lambda>t. t @ '','') known) @ name @ c # rest"
    and "\<forall>t \<in> set known. motor_name t \<and> t \<in> set (defined_motors m)"
    and "motor_name name" and "name \<notin> set (defined_motors m)" and "\<not> name_char c"
    and "motor_list_len m \<le> int (length (motor_list m))"
    and "length known \<le> free_slots m"
  shows "\<exists>m'. sm_loop m = Some (Inr m') \<and> sm_error m' = 1 \<and>
    stderr m' = stderr m @
      [if list_end c then take 62 (not_found_msg name) else c_str (invalid_char_msg c ''type identifier''),
       nl]"
proof -
  from motor_list_loop_unknown [OF assms(6,7,8,9,5,4,10,11)]
  obtain m1 where m1: "state_read_motor_list_loop line m = Inr m1" "motor_config_state m1 = ERROR"
    "err_str m1 = (if list_end c then snprintf (ERROR_STR_LEN - 1) (not_found_msg name)
                   else invalid_char_msg c ''type identifier'')"
    "stderr m1 = stderr m" "sm_stop m1 = sm_stop m"
    by blast
  let ?m2 = "m1\<lparr>line_buff := None, stderr := stderr m1 @ [c_str (err_str m1), [CHR 0x0A]],
    sm_stop := True, sm_error := 1\<rparr>"
  from assms(1,3) m1(1) have s1: "sm_step m = Inr m1"
    by (simp add: sm_step_def state_read_motor_list_def)
  from m1(2) have s2: "sm_step m1 = Inr ?m2" by (simp add: sm_step_def)
  from assms(2) s1 have "sm_loop m = sm_loop m1" by (subst sm_loop.simps) simp
  also from assms(2) m1(5) s2 have "\<dots> = sm_loop ?m2" by (subst sm_loop.simps) simp
  also have "\<dots> = Some (Inr ?m2)" by (subst sm_loop.simps) simp
  finally have "sm_loop m = Some (Inr ?m2)" .
  moreover have "c_str (err_str m1) =
      (if list_end c then take 62 (not_found_msg name) else c_str (invalid_char_msg c ''type identifier''))"
  proof (cases "list_end c")
    case True
    then have "err_str m1 = snprintf (ERROR_STR_LEN - 1) (not_found_msg name)" by (simp add: m1(3))
    then have "c_str (err_str m1) = take 62 (not_found_msg name)"
      by (simp only: c_str_not_found_msg [OF assms(7)])
    with True show ?thesis by simp
  next
    case False
    then show ?thesis by (simp add: m1(3))
  qed
  then have "stderr ?m2 = stderr m @
      [if list_end c then take 62 (not_found_msg name) else c_str (invalid_char_msg c ''type identifier''),
       nl]"
    by (simp add: m1(4) nl_def)
  ultimately show ?thesis by (intro exI [of _ ?m2]) simp
qed

subsection \<open>What every pass of the state machine keeps\<close>

lemma same_run_refl: "same_run m m"
  by (simp add: same_run_def)

lemma same_run_trans: "same_run m m1 \<Longrightarrow> same_run m1 m2 \<Longrightarrow> same_run m m2"
  by (simp add: same_run_def)

lemma state_read_param_same: "state_read_param m = Inr m' \<Longrightarrow> same_run m m'"
  by (auto simp: state_read_param_def same_run_def
      split: option.splits prod.splits scan_stop.splits if_splits)

lemma state_read_identifier_same: "state_read_identifier m = Inr m' \<Longrightarrow> same_run m m'"
  by (auto simp: state_read_identifier_def same_run_def
      split: option.splits prod.splits scan_stop.splits if_splits)

lemma state_read_value_same: "state_read_value m = Inr m' \<Longrightarrow> same_run m m'"
  by (auto simp: state_read_value_def same_run_def
      split: option.splits prod.splits scan_stop.splits if_splits)

lemma state_set_identifier_same: "same_run m (state_set_identifier m)"
  by (simp add: state_set_identifier_def same_run_def)

lemma state_check_param_same: "same_run m (state_check_param m)"
  by (simp add: state_check_param_def same_run_def split: option.splits)

lemma set_motor_same: "set_motor f m = Inr m' \<Longrightarrow> same_run m m'"
  by (auto simp: set_motor_def same_run_def Let_def split: if_splits)

lemma set_axis_same: "set_axis f m = Inr m' \<Longrightarrow> same_run m m'"
  by (auto simp: set_axis_def same_run_def Let_def split: if_splits)

lemma fail_with_same: "same_run m (fail_with msg m)"
  by (simp add: fail_with_def same_run_def)

lemma state_set_param_same:
  assumes "state_set_param m = Inr m'"
  shows "same_run m m'"
proof -
  let ?m = "m\<lparr>motor_config_state := CLEANUP\<rparr>"
  have start: "same_run m ?m" by (simp add: same_run_def)
  have "same_run ?m m'"
  proof (cases "param_id m")
    case INVALID_PARAM
    with assms show ?thesis by (auto simp: state_set_param_def Let_def same_run_def)
  next
    case MOTOR_LIST
    with assms show ?thesis by (auto simp: state_set_param_def Let_def same_run_def)
  qed (use assms in \<open>auto simp: state_set_param_def Let_def
      intro: set_motor_same set_axis_same fail_with_same split: if_splits\<close>)
  with start show ?thesis by (rule same_run_trans)
qed

lemma append_motor_same: "append_motor k m = Inr m' \<Longrightarrow> same_run m m'"
  by (auto simp: append_motor_def same_run_def Let_def split: if_splits)

lemma read_motor_name_same:
  assumes "read_motor_name line m = Inr (stp, m')"
  shows "same_run m m'"
proof -
  obtain why off buf where
    sc: "scan_chars (\<lambda>c. isalnum c \<or> c = CHR ''-'' \<or> c = CHR ''_'') line (line_size m) (offset m) [] =
      (why, off, buf)"
    by (metis prod_cases3)
  from assms sc show ?thesis
    by (auto simp: read_motor_name_def Let_def fail_with_def same_run_def
        dest!: append_motor_same
        split: scan_stop.splits if_splits sum.splits option.splits prod.splits)
qed

lemma state_read_motor_list_loop_same:
  "state_read_motor_list_loop line m = Inr m' \<Longrightarrow> same_run m m'"
proof (induction line m rule: state_read_motor_list_loop.induct)
  case (1 line m)
  from "1.prems" obtain stp m1 where r: "read_motor_name line m = Inr (stp, m1)"
    by (subst (asm) state_read_motor_list_loop.simps) (auto split: sum.splits)
  note s1 = read_motor_name_same [OF r]
  show ?case
  proof (cases stp)
    case True
    with "1.prems" r have "m' = m1" by (subst (asm) state_read_motor_list_loop.simps) simp
    with s1 show ?thesis by simp
  next
    case False
    with "1.prems" r have "state_read_motor_list_loop line m1 = Inr m'"
      by (subst (asm) state_read_motor_list_loop.simps) simp
    from "1.IH" [OF r refl _ this] False have "same_run m1 m'" by simp
    with s1 show ?thesis by (rule same_run_trans)
  qed
qed

lemma same_run_inv:
  assumes "same_run m m'" and "parse_inv m" and "\<not> sm_stop m"
  shows "parse_inv m'"
  using assms by (auto simp: same_run_def parse_inv_def)

lemma sm_step_inv:
  assumes "sm_step m = Inr m'" and "parse_inv m" and "\<not> sm_stop m"
  shows "parse_inv m'"
proof (cases "motor_config_state m")
  case READ_LINE
  with assms show ?thesis
    by (auto simp: sm_step_def state_read_line_def parse_inv_def split: list.splits)
next
  case READ_PARAM
  with assms(1) have "same_run m m'" by (simp add: sm_step_def state_read_param_same)
  then show ?thesis using assms(2,3) by (rule same_run_inv)
next
  case READ_IDENTIFIER
  with assms(1) have "same_run m m'" by (simp add: sm_step_def state_read_identifier_same)
  then show ?thesis using assms(2,3) by (rule same_run_inv)
next
  case SET_IDENTIFIER
  with assms(1) have "same_run m m'" by (auto simp: sm_step_def state_set_identifier_same)
  then show ?thesis using assms(2,3) by (rule same_run_inv)
next
  case CHECK_PARAM
  with assms(1) have "same_run m m'" by (auto simp: sm_step_def state_check_param_same)
  then show ?thesis using assms(2,3) by (rule same_run_inv)
next
  case READ_VALUE
  with assms(1) have "same_run m m'" by (simp add: sm_step_def state_read_value_same)
  then show ?thesis using assms(2,3) by (rule same_run_inv)
next
  case SET_PARAM
  with assms(1) have "same_run m m'" by (simp add: sm_step_def state_set_param_same)
  then show ?thesis using assms(2,3) by (rule same_run_inv)
next
  case READ_MOTOR_LIST
  with assms(1) have "same_run m m'"
    by (auto simp: sm_step_def state_read_motor_list_def state_read_motor_list_loop_same
        split: option.splits)
  then show ?thesis using assms(2,3) by (rule same_run_inv)
next
  case CLEANUP
  with assms show ?thesis by (auto simp: sm_step_def parse_inv_def)
next
  case FINISHED
  with assms show ?thesis by (auto simp: sm_step_def parse_inv_def)
next
  case ERROR
  with assms show ?thesis by (auto simp: sm_step_def parse_inv_def)
qed

lemma sm_run_inv: "sm_run k m = Inr m' \<Longrightarrow> parse_inv m \<Longrightarrow> parse_inv m'"
proof (induction k arbitrary: m)
  case 0
  then show ?case by simp
next
  case (Suc k)
  show ?case
  proof (cases "sm_stop m")
    case True
    with Suc.prems show ?thesis by simp
  next
    case False
    with Suc.prems obtain m1 where s: "sm_step m = Inr m1" and r: "sm_run k m1 = Inr m'"
      by (auto split: sum.splits)
    from sm_step_inv [OF s Suc.prems(2) False] have "parse_inv m1" .
    from Suc.IH [OF r this] show ?thesis .
  qed
qed

lemma initial_inv: "parse_inv (initial file)"
  by (simp add: parse_inv_def initial_def MOTOR_LIST_SIZE_MAX_def)

text \<open>
  C7 as stated fails where the unknown name is not ended by a comma, a blank, \<open>#\<close> or the end
  of the line. When the last line of the file has no newline, the character after the name
  is the NUL of the line buffer: the parser takes it for an invalid character, the name is
  never looked up, and the error line, cut at the NUL, does not name the motor.
\<close>

theorem undefined_motor_not_named:
  "read_motor_config (\<lambda>node. True) unended_motor_file =
     Some (Inr \<lparr>retval = - 1, printed = [''Invalid char ('', nl],
                steppers_made = [], axes_made = []\<rparr>)"
proof -
  have "\<exists>m. sm_run 25 (initial unended_motor_file) = Inr m \<and> sm_stop m \<and> sm_error m = 1 \<and>
      stderr m = [''Invalid char ('', nl]"
    by (simp add: parser_defs unended_motor_file_def invalid_char_msg_def hex2_def hex_digit_def)
  then obtain m where run: "sm_run 25 (initial unended_motor_file) = Inr m" and st: "sm_stop m"
    and m: "sm_error m = 1" "stderr m = [''Invalid char ('', nl]"
    by blast
  from sm_run_loop [OF run] sm_loop_stopped [OF st]
  have "sm_loop (initial unended_motor_file) = Some (Inr m)" by simp
  with m show ?thesis by (simp add: read_motor_config_def)
qed

text \<open>
  C7 amended. Let the parser, started on the file with empty lists, have reached the motor
  list of an axis (the state \<open>READ_MOTOR_LIST\<close>), and let the rest of the line buffer be
  names of motors defined so far, each followed by a comma, and then a well-formed name
  that no motor defined so far has, followed by a character \<open>c\<close> that cannot be part of a
  name. Provided the motor list is not over-full and the axis entry has a free slot for each
  of the known names, parsing fails: \<open>read_motor_config\<close> returns \<open>-1\<close>, no motor or axis is
  constructed, and one error line is printed. When \<open>c\<close> is a comma, a blank, \<open>#\<close> or the
  newline, that line begins with \<open>Motor\<close> and the unknown name; for any other \<open>c\<close> it reports
  an invalid character instead.
\<close>

theorem undefined_motor_in_axis:
  assumes "sm_run k (initial file) = Inr m"
    and "motor_config_state m = READ_MOTOR_LIST"
    and "line_buff m = Some line"
    and "drop (offset m) (line @ [CHR 0x00]) = concat (map (\<lambda>t. t @ '','') known) @ name @ c # rest"
    and "\<forall>t \<in> set known. motor_name t \<and> t \<in> set (defined_motors m)"
    and "motor_name name" and "name \<notin> set (defined_motors m)" and "\<not> name_char c"
    and "motor_list_len m \<le> int MOTOR_LIST_SIZE_MAX"
    and "length known \<le> free_slots m"
  shows "read_motor_config ok file =
      Some (Inr \<lparr>retval = - 1,
                 printed = [if list_end c then take 62 (not_found_msg name)
                            else c_str (invalid_char_msg c ''type identifier''), nl],
                 steppers_made = [], axes_made = []\<rparr>) \<and>
    take (6 + length name) (take 62 (not_found_msg name)) = ''Motor '' @ name"
proof -
  from sm_run_inv [OF assms(1) initial_inv] have inv: "parse_inv m" .
  with assms(2,3) have run: "\<not> sm_stop m" and quiet: "stderr m = []"
    and size: "length line < line_size m" and full: "length (motor_list m) = MOTOR_LIST_SIZE_MAX"
    by (auto simp: parse_inv_def)
  from assms(9) full have len: "motor_list_len m \<le> int (length (motor_list m))" by simp
  from sm_loop_unknown_motor [OF assms(2) run assms(3) size assms(4,5,6,7,8) len assms(10)]
  obtain m' where m': "sm_loop m = Some (Inr m')" "sm_error m' = 1"
    "stderr m' = stderr m @
      [if list_end c then take 62 (not_found_msg name) else c_str (invalid_char_msg c ''type identifier''),
       nl]"
    by blast
  from sm_run_loop [OF assms(1)] m'(1) have "sm_loop (initial file) = Some (Inr m')" by simp
  with m'(2,3) quiet have "read_motor_config ok file =
      Some (Inr \<lparr>retval = - 1,
                 printed = [if list_end c then take 62 (not_found_msg name)
                            else c_str (invalid_char_msg c ''type identifier''), nl],
                 steppers_made = [], axes_made = []\<rparr>)"
    by (simp add: read_motor_config_def)
  with not_found_msg_names [OF assms(6)] show ?thesis by simp
qed

theorem undefined_motor_in_axis_witness:
  "read_motor_config (\<lambda>node. True) undefined_motor_file =
     Some (Inr \<lparr>retval = - 1,
                printed = [''Motor b not found before axis definition in motor.conf'', nl],
                steppers_made = [], axes_made = []\<rparr>)"
proof -
  have "\<exists>m. sm_run 20 (initial undefined_motor_file) = Inr m \<and>
      motor_config_state m = READ_MOTOR_LIST \<and> line_buff m = Some (''motors=a,b'' @ nl) \<and>
      offset m = 7 \<and> motor_list_len m = 1 \<and> defined_motors m = [''a''] \<and> free_slots m = 8"
    by (simp add: parser_defs undefined_motor_file_def defined_motors_def free_slots_def)
  then obtain m where m: "sm_run 20 (initial undefined_motor_file) = Inr m"
    "motor_config_state m = READ_MOTOR_LIST" "line_buff m = Some (''motors=a,b'' @ nl)"
    "offset m = 7" "motor_list_len m = 1" "defined_motors m = [''a'']" "free_slots m = 8"
    by blast
  have line: "drop (offset m) ((''motors=a,b'' @ nl) @ [CHR 0x00]) =
      concat (map (\<lambda>t. t @ '','') [''a'']) @ ''b'' @ CHR 0x0A # [CHR 0x00]"
    by (simp add: m(4) nl_def)
  have names: "\<forall>t \<in> set [''a'']. motor_name t \<and> t \<in> set (defined_motors m)"
    by (simp add: m(6) motor_name_def name_char_def isalnum_def islower_def PARAM_MAX_LEN_def)
  have b: "motor_name ''b''"
    by (simp add: motor_name_def name_char_def isalnum_def islower_def PARAM_MAX_LEN_def)
  have new: "''b'' \<notin> set (defined_motors m)" by (simp add: m(6))
  have fin: "\<not> name_char (CHR 0x0A)"
    by (simp add: name_char_def isalnum_def islower_def isupper_def isdigit_def)
  have len: "motor_list_len m \<le> int MOTOR_LIST_SIZE_MAX" by (simp add: m(5) MOTOR_LIST_SIZE_MAX_def)
  have room: "length [''a''] \<le> free_slots m" by (simp add: m(7))
  from undefined_motor_in_axis [OF m(1,2,3) line names b new fin len room, of "\<lambda>node. True"]
  show ?thesis by (simp add: not_found_msg_def list_end_def)
qed

end
